theory Spec2Isabelle
  imports Main
begin

section \<open>The authenticated API client of finance-network\<close>

text \<open>
  This theory embeds \<^verbatim>\<open>frontend/src/services/financialNetworkService.ts\<close>, in its version
  with an access token, a refresh token and a response interceptor (the class with the
  fields \<^verbatim>\<open>accessToken\<close>, \<^verbatim>\<open>refreshToken\<close> and \<^verbatim>\<open>refreshing\<close>).

  The service is asynchronous, on JavaScript's single-threaded event loop. Every piece of
  code between two \<^verbatim>\<open>await\<close>s runs without interruption, so the model is a state
  machine: the state holds the fields of the service, the two globals it shares with the rest
  of the page (\<^verbatim>\<open>localStorage\<close> and \<^verbatim>\<open>axios.defaults.headers.common\<close>), the requests
  that are on the network, and the interceptor invocations suspended at
  \<^verbatim>\<open>await this.refreshAccessToken()\<close>. An event is a call of a public method or the
  answer of the network to one request; a step runs the code that the event wakes up, as far
  as the next suspension.
\<close>

subsection \<open>Data\<close>

text \<open>The part of \<^verbatim>\<open>response.data\<close> the service reads (\<^verbatim>\<open>AuthResponse\<close> in
  \<^verbatim>\<open>types.ts\<close>), and the rest of it, kept opaque.\<close>

record response_data =
  access :: "string option"
  refresh :: "string option"
  content :: string

record axios_response =
  resp_status :: nat
  resp_data :: response_data

text \<open>What a rejected promise carries: an \<^verbatim>\<open>AxiosError\<close> has a message and, when the
  server answered, a response; a plain \<^verbatim>\<open>Error\<close> has a message only.\<close>

record axios_error =
  err_message :: string
  response :: "axios_response option"

definition Error :: "string \<Rightarrow> axios_error" where
  "Error msg = \<lparr>err_message = msg, response = None\<rparr>"

text \<open>\<^verbatim>\<open>APIError\<close> of \<^verbatim>\<open>types.ts\<close>.\<close>

record api_error =
  message :: string
  status :: nat
  details :: "response_data option"

datatype http_method = GET | POST | PUT | DELETE

datatype request_body =
    NoBody
  | Json string
  | Credentials string string
  | RefreshBody "string option"

text \<open>A request configuration: what \<^verbatim>\<open>error.config\<close> gives back to the interceptor.
  \<^verbatim>\<open>retry\<close> is the \<^verbatim>\<open>_retry\<close> flag the interceptor adds.\<close>

record request_config =
  verb :: http_method
  url :: string
  body :: request_body
  Authorization :: "string option"
  retry :: bool

text \<open>Which code awaits the promise of an axios call: a CRUD or simulation method that
  returns the data (\<^verbatim>\<open>.catch(error => this.handleError(error))\<close>, then
  \<^verbatim>\<open>return response.data\<close>), one of the three delete methods (the same \<^verbatim>\<open>catch\<close>, and
  no \<^verbatim>\<open>return\<close>), the rest of \<^verbatim>\<open>login\<close>, or the rest of \<^verbatim>\<open>doRefreshToken\<close>.\<close>

datatype awaiter = Crud | Delete | Login | Refresh

text \<open>What a call of a public method ends with.\<close>

datatype failure = Api api_error | Plain string

datatype result = Returned response_data | ReturnedVoid | Threw failure

type_synonym pending = "nat \<times> awaiter \<times> request_config"

record world =
  accessToken :: "string option"
  refreshToken :: "string option"
  refreshing :: bool
  localStorage :: "string \<rightharpoonup> string"
  defaultAuthorization :: "string option"
  inflight :: "pending list"
  waiting :: "pending list"
  sent :: "request_config list"
  results :: "(nat \<times> awaiter \<times> result) list"
  next_id :: nat

text \<open>
  \<^item> \<^verbatim>\<open>refreshing\<close> is the field \<^verbatim>\<open>Promise<string> | null\<close>; the service only tests it
    for null and awaits it, so the model keeps whether it is set. The promise it holds is
    always the one of the latest \<^verbatim>\<open>doRefreshToken()\<close>; the invocations that await it are
    \<^verbatim>\<open>waiting\<close>, in the order in which they began to wait.
  \<^item> \<^verbatim>\<open>defaultAuthorization\<close> is \<^verbatim>\<open>axios.defaults.headers.common['Authorization']\<close>.
  \<^item> \<^verbatim>\<open>inflight\<close> are the requests dispatched and not yet answered, each with the number of
    the call it belongs to; \<^verbatim>\<open>sent\<close> logs every dispatch, oldest first.
  \<^item> \<^verbatim>\<open>results\<close> logs how the calls of public methods ended.
\<close>

subsection \<open>JavaScript's truthiness and the header of a token\<close>

text \<open>\<^verbatim>\<open>if (token)\<close> on a \<^verbatim>\<open>string | null | undefined\<close>: the empty string is falsy too.\<close>

definition truthy :: "string option \<Rightarrow> bool" where
  "truthy t = (case t of None \<Rightarrow> False | Some s \<Rightarrow> s \<noteq> [])"

definition Bearer :: "string \<Rightarrow> string" where
  "Bearer token = ''Bearer '' @ token"

subsection \<open>The synchronous helpers\<close>

definition setAuthHeader :: "string \<Rightarrow> world \<Rightarrow> world" where
  "setAuthHeader token w = w\<lparr>defaultAuthorization := Some (Bearer token)\<rparr>"

definition handleError :: "axios_error \<Rightarrow> api_error" where
  "handleError error =
     \<lparr>message = err_message error,
      status = (case response error of
                  None \<Rightarrow> 500
                | Some r \<Rightarrow> if resp_status r = 0 then 500 else resp_status r),
      details = map_option resp_data (response error)\<rparr>"

text \<open>\<^verbatim>\<open>logout\<close> has no \<^verbatim>\<open>await\<close>: its body runs at the call.\<close>

definition logout :: "world \<Rightarrow> world" where
  "logout w =
     w\<lparr>localStorage := (localStorage w)(''accessToken'' := None, ''refreshToken'' := None),
       accessToken := None,
       refreshToken := None,
       defaultAuthorization := None\<rparr>"

text \<open>The constructor, run once when the page loads, on what \<^verbatim>\<open>localStorage\<close> holds
  then. Nothing is on the network, and axios has its defaults.\<close>

definition "constructor" :: "(string \<rightharpoonup> string) \<Rightarrow> world" where
  "constructor storage =
     (let w = \<lparr>accessToken = storage ''accessToken'',
               refreshToken = storage ''refreshToken'',
               refreshing = False,
               localStorage = storage,
               defaultAuthorization = None,
               inflight = [], waiting = [], sent = [], results = [], next_id = 0\<rparr>
      in case storage ''accessToken'' of
           None \<Rightarrow> w
         | Some token \<Rightarrow> if token \<noteq> [] then setAuthHeader token w else w)"

subsection \<open>Dispatching a request\<close>

text \<open>\<^verbatim>\<open>axios(config)\<close>: the request goes on the network and is logged.\<close>

definition send :: "nat \<Rightarrow> awaiter \<Rightarrow> request_config \<Rightarrow> world \<Rightarrow> world" where
  "send i a cfg w = w\<lparr>inflight := inflight w @ [(i, a, cfg)], sent := sent w @ [cfg]\<rparr>"

text \<open>\<^verbatim>\<open>axios.get(url)\<close>, \<^verbatim>\<open>axios.post(url, data)\<close>, ...: a new call, whose request takes
  the Authorization header of the defaults as they are at that moment.\<close>

definition axios_call :: "awaiter \<Rightarrow> http_method \<Rightarrow> string \<Rightarrow> request_body \<Rightarrow> world \<Rightarrow> world" where
  "axios_call a m u b w =
     send (next_id w) a
       \<lparr>verb = m, url = u, body = b, Authorization = defaultAuthorization w, retry = False\<rparr>
       (w\<lparr>next_id := Suc (next_id w)\<rparr>)"

subsection \<open>The public methods\<close>

datatype operation =
    createNode string | getNodes | getNode string | updateNode string string | deleteNode string
  | createEdge string | getEdges | getEdge string | updateEdge string string | deleteEdge string
  | createTransaction string | getTransactions | getTransaction string
  | updateTransaction string string | deleteTransaction string
  | simulateTransactions string

text \<open>The axios call each method makes. An object that is sent is its JSON text. An id is
  the text that the template literal \<^verbatim>\<open>`nodes/${nodeId}/`\<close> puts into the url for it: the
  digits of an integer, and also \<^verbatim>\<open>1e+21\<close>, or \<^verbatim>\<open>undefined\<close> for the id that an object
  does not have. The update methods take the id from the object they send.\<close>

fun request_of :: "operation \<Rightarrow> http_method \<times> string \<times> request_body" where
  "request_of (createNode node) = (POST, ''nodes/'', Json node)"
| "request_of getNodes = (GET, ''nodes/'', NoBody)"
| "request_of (getNode nodeId) = (GET, ''nodes/'' @ nodeId @ ''/'', NoBody)"
| "request_of (updateNode nodeId node) = (PUT, ''nodes/'' @ nodeId @ ''/'', Json node)"
| "request_of (deleteNode nodeId) = (DELETE, ''nodes/'' @ nodeId @ ''/'', NoBody)"
| "request_of (createEdge edge) = (POST, ''edges/'', Json edge)"
| "request_of getEdges = (GET, ''edges/'', NoBody)"
| "request_of (getEdge edgeId) = (GET, ''edges/'' @ edgeId @ ''/'', NoBody)"
| "request_of (updateEdge edgeId edge) = (PUT, ''edges/'' @ edgeId @ ''/'', Json edge)"
| "request_of (deleteEdge edgeId) = (DELETE, ''edges/'' @ edgeId @ ''/'', NoBody)"
| "request_of (createTransaction t) = (POST, ''transactions/'', Json t)"
| "request_of getTransactions = (GET, ''transactions/'', NoBody)"
| "request_of (getTransaction tId) = (GET, ''transactions/'' @ tId @ ''/'', NoBody)"
| "request_of (updateTransaction tId t) = (PUT, ''transactions/'' @ tId @ ''/'', Json t)"
| "request_of (deleteTransaction tId) = (DELETE, ''transactions/'' @ tId @ ''/'', NoBody)"
| "request_of (simulateTransactions params) = (POST, ''transactions/simulate/'', Json params)"

text \<open>The delete methods await the call and return nothing; the others return
  \<^verbatim>\<open>response.data\<close>.\<close>

fun awaiter_of :: "operation \<Rightarrow> awaiter" where
  "awaiter_of (deleteNode nodeId) = Delete"
| "awaiter_of (deleteEdge edgeId) = Delete"
| "awaiter_of (deleteTransaction tId) = Delete"
| "awaiter_of opn = Crud"

definition crud :: "operation \<Rightarrow> world \<Rightarrow> world" where
  "crud opn w = (case request_of opn of (m, u, b) \<Rightarrow> axios_call (awaiter_of opn) m u b w)"

definition login :: "string \<Rightarrow> string \<Rightarrow> world \<Rightarrow> world" where
  "login username password w =
     axios_call Login POST ''token/'' (Credentials username password) w"

subsection \<open>How a call ends\<close>

definition record_result :: "nat \<Rightarrow> awaiter \<Rightarrow> result \<Rightarrow> world \<Rightarrow> world" where
  "record_result i a r w = w\<lparr>results := results w @ [(i, a, r)]\<rparr>"

text \<open>The rest of \<^verbatim>\<open>login\<close>, once \<^verbatim>\<open>axios.post('token/', ...)\<close> has given a response:
  both tokens are checked, and only then stored.\<close>

definition login_resume :: "nat \<Rightarrow> axios_response \<Rightarrow> world \<Rightarrow> world" where
  "login_resume i r w =
     (if \<not> truthy (access (resp_data r)) \<or> \<not> truthy (refresh (resp_data r))
      then record_result i Login (Threw (Plain ''Invalid token response'')) w
      else case (access (resp_data r), refresh (resp_data r)) of
             (Some acc, Some rfr) \<Rightarrow>
               record_result i Login ReturnedVoid
                 (setAuthHeader acc
                   (w\<lparr>accessToken := Some acc,
                      refreshToken := Some rfr,
                      localStorage := (localStorage w)(''accessToken'' \<mapsto> acc,
                                                       ''refreshToken'' \<mapsto> rfr)\<rparr>))
           | _ \<Rightarrow> record_result i Login (Threw (Plain ''Invalid token response'')) w)"

text \<open>The rest of \<^verbatim>\<open>doRefreshToken\<close>, once \<^verbatim>\<open>axios.post('token/refresh/', ...)\<close> has
  settled: the new state, and how the promise of \<^verbatim>\<open>doRefreshToken\<close> settles (\<open>Inr\<close> the new
  access token, \<open>Inl\<close> the error it rejects with). Only \<^verbatim>\<open>response.data.access\<close> is
  read.\<close>

definition doRefreshToken_resume ::
  "axios_error + axios_response \<Rightarrow> world \<Rightarrow> world \<times> (axios_error + string)" where
  "doRefreshToken_resume x w =
     (case x of
        Inl error \<Rightarrow> (logout w, Inl error)
      | Inr r \<Rightarrow>
          (case access (resp_data r) of
             None \<Rightarrow> (logout w, Inl (Error ''No access token received''))
           | Some newAccessToken \<Rightarrow>
               if newAccessToken = [] then (logout w, Inl (Error ''No access token received''))
               else (setAuthHeader newAccessToken
                       (w\<lparr>accessToken := Some newAccessToken,
                          localStorage := (localStorage w)(''accessToken'' \<mapsto> newAccessToken)\<rparr>),
                     Inr newAccessToken)))"

text \<open>What the awaiter of an axios call does when the promise of the call settles, the
  response interceptor included. A CRUD method passes a rejection through \<open>handleError\<close> and
  returns \<^verbatim>\<open>response.data\<close> otherwise, a delete method returns nothing; \<^verbatim>\<open>login\<close> does
  the same with a rejection. For
  \<^verbatim>\<open>doRefreshToken\<close> this is the effect of its body on the state; the settling of its
  promise is \<open>refresh_settled\<close> below, which \<open>settle\<close> runs when the refresh call is
  answered. The last clause is also what an interceptor invocation for the refresh call would
  run if it were woken by another refresh; in the states the service reaches there is none
  (\<open>no_refresher_waits\<close> below), and the clause only makes the function total.\<close>

fun finish :: "awaiter \<Rightarrow> nat \<Rightarrow> axios_error + axios_response \<Rightarrow> world \<Rightarrow> world" where
  "finish Crud i (Inl error) w = record_result i Crud (Threw (Api (handleError error))) w"
| "finish Crud i (Inr r) w = record_result i Crud (Returned (resp_data r)) w"
| "finish Delete i (Inl error) w = record_result i Delete (Threw (Api (handleError error))) w"
| "finish Delete i (Inr r) w = record_result i Delete ReturnedVoid w"
| "finish Login i (Inl error) w = record_result i Login (Threw (Api (handleError error))) w"
| "finish Login i (Inr r) w = login_resume i r w"
| "finish Refresh i x w = fst (doRefreshToken_resume x w)"

subsection \<open>The response interceptor and the refresh\<close>

text \<open>An interceptor invocation that was suspended at \<^verbatim>\<open>await this.refreshAccessToken()\<close>
  goes on when that promise settles: with a token it stamps the request and dispatches it
  again; with an error it logs out and rejects, which settles the promise of the original
  call.\<close>

fun interceptor_resume :: "axios_error + string \<Rightarrow> pending \<Rightarrow> world \<Rightarrow> world" where
  "interceptor_resume (Inr newAccessToken) (i, a, originalRequest) w =
     send i a (originalRequest\<lparr>Authorization := Some (Bearer newAccessToken)\<rparr>) w"
| "interceptor_resume (Inl refreshError) (i, a, originalRequest) w =
     finish a i (Inl refreshError) (logout w)"

text \<open>The promise of \<^verbatim>\<open>doRefreshToken\<close> settles: the body of \<^verbatim>\<open>doRefreshToken\<close> ends, the
  \<^verbatim>\<open>finally\<close> of the first \<^verbatim>\<open>refreshAccessToken\<close> resets \<^verbatim>\<open>refreshing\<close>, and every
  suspended interceptor invocation goes on, in the order in which they began to wait. All
  of this is one run of the microtask queue.\<close>

definition refresh_settled :: "axios_error + axios_response \<Rightarrow> world \<Rightarrow> world" where
  "refresh_settled x w =
     (case doRefreshToken_resume x w of
        (w', outcome) \<Rightarrow>
          fold (interceptor_resume outcome) (waiting w') (w'\<lparr>refreshing := False, waiting := []\<rparr>))"

definition settle :: "awaiter \<Rightarrow> nat \<Rightarrow> axios_error + axios_response \<Rightarrow> world \<Rightarrow> world" where
  "settle a i x w = (if a = Refresh then refresh_settled x w else finish a i x w)"

text \<open>\<^verbatim>\<open>doRefreshToken\<close> up to its \<^verbatim>\<open>await\<close>, called by the interceptor invocation \<open>p\<close>
  through \<^verbatim>\<open>refreshAccessToken\<close>. Without a refresh token it throws before any request:
  the promise is rejected at once, \<^verbatim>\<open>refreshing\<close> is set and reset within the step, and
  \<open>p\<close> goes on with the error. With one, the refresh request is dispatched and \<open>p\<close> waits.\<close>

definition doRefreshToken :: "pending \<Rightarrow> world \<Rightarrow> world" where
  "doRefreshToken p w =
     (if \<not> truthy (refreshToken w)
      then interceptor_resume (Inl (Error ''No refresh token available'')) p w
      else axios_call Refresh POST ''token/refresh/'' (RefreshBody (refreshToken w))
             (w\<lparr>refreshing := True, waiting := waiting w @ [p]\<rparr>))"

definition refreshAccessToken :: "pending \<Rightarrow> world \<Rightarrow> world" where
  "refreshAccessToken p w =
     (if refreshing w then w\<lparr>waiting := waiting w @ [p]\<rparr> else doRefreshToken p w)"

text \<open>The rejection handler the constructor installs with
  \<^verbatim>\<open>axios.interceptors.response.use\<close>. It is installed on the global axios instance, which
  every call of the service uses: the calls of \<^verbatim>\<open>login\<close> and of \<^verbatim>\<open>doRefreshToken\<close> pass
  through it as well.\<close>

definition interceptor :: "nat \<Rightarrow> awaiter \<Rightarrow> request_config \<Rightarrow> axios_error \<Rightarrow> world \<Rightarrow> world" where
  "interceptor i a originalRequest error w =
     (if map_option resp_status (response error) \<noteq> Some 401 \<or> retry originalRequest
      then settle a i (Inl error) w
      else refreshAccessToken (i, a, originalRequest\<lparr>retry := True\<rparr>) w)"

subsection \<open>Events\<close>

text \<open>The network answers the request of call \<open>i\<close>: with a response of a status that axios
  accepts (\<open>Inr\<close>), or with an error (\<open>Inl\<close>: a response of another status, or none at all).
  An answer to a request that is not on the network is ignored.\<close>

definition deliver :: "nat \<Rightarrow> axios_error + axios_response \<Rightarrow> world \<Rightarrow> world" where
  "deliver i x w =
     (case find (\<lambda>p. fst p = i) (inflight w) of
        None \<Rightarrow> w
      | Some (_, a, cfg) \<Rightarrow>
          (let w' = w\<lparr>inflight := filter (\<lambda>p. fst p \<noteq> i) (inflight w)\<rparr>
           in case x of
                Inr r \<Rightarrow> settle a i (Inr r) w'
              | Inl error \<Rightarrow> interceptor i a cfg error w'))"

datatype event =
    Call operation
  | CallLogin string string
  | CallLogout
  | Answer nat "axios_error + axios_response"

fun step :: "event \<Rightarrow> world \<Rightarrow> world" where
  "step (Call opn) w = crud opn w"
| "step (CallLogin username password) w = login username password w"
| "step CallLogout w = logout w"
| "step (Answer i x) w = deliver i x w"

definition run :: "event list \<Rightarrow> world \<Rightarrow> world" where
  "run evs w = fold step evs w"

subsection \<open>Notions used by the properties\<close>

definition unauthorized :: "axios_error \<Rightarrow> bool" where
  "unauthorized error = (map_option resp_status (response error) = Some 401)"

definition lookup :: "nat \<Rightarrow> pending list \<Rightarrow> (awaiter \<times> request_config) option" where
  "lookup i ps = map_option snd (find (\<lambda>p. fst p = i) ps)"

definition is_refresh_call :: "request_config \<Rightarrow> bool" where
  "is_refresh_call cfg = (url cfg = ''token/refresh/'')"

definition refresh_calls :: "request_config list \<Rightarrow> nat" where
  "refresh_calls cs = length (filter is_refresh_call cs)"

definition refresh_inflight :: "world \<Rightarrow> nat" where
  "refresh_inflight w = refresh_calls (map (\<lambda>p. snd (snd p)) (inflight w))"

text \<open>A parked request as the interceptor dispatches it again with the token \<open>t\<close>.\<close>

definition stamp :: "string \<Rightarrow> pending \<Rightarrow> pending" where
  "stamp t p = (fst p, fst (snd p), (snd (snd p))\<lparr>Authorization := Some (Bearer t)\<rparr>)"

definition refresh_request :: "world \<Rightarrow> request_config" where
  "refresh_request w =
     \<lparr>verb = POST, url = ''token/refresh/'', body = RefreshBody (refreshToken w),
      Authorization = defaultAuthorization w, retry = False\<rparr>"

text \<open>What holds of every state the service reaches: the numbers of the calls are below
  the next one; a request is awaited by \<^verbatim>\<open>doRefreshToken\<close> exactly when it goes to
  \<^verbatim>\<open>token/refresh/\<close>; there is at most one such request, on the network or parked, and
  only while \<^verbatim>\<open>refreshing\<close> is set; nothing waits for a refresh unless \<^verbatim>\<open>refreshing\<close>
  is set.\<close>

definition is_refresher :: "pending \<Rightarrow> bool" where
  "is_refresher p = (fst (snd p) = Refresh)"

definition wellformed :: "world \<Rightarrow> bool" where
  "wellformed w =
     ((\<forall>p \<in> set (inflight w @ waiting w).
          fst p < next_id w \<and> is_refresher p = is_refresh_call (snd (snd p))) \<and>
      length (filter is_refresher (inflight w @ waiting w)) \<le> (if refreshing w then 1 else 0) \<and>
      (refreshing w \<or> waiting w = []))"

text \<open>More of what holds of every state the service reaches: a call has at most one request
  on the network or parked, and every parked request carries the \<^verbatim>\<open>_retry\<close> flag.\<close>

definition tidy :: "world \<Rightarrow> bool" where
  "tidy w =
     (distinct (map fst (inflight w @ waiting w)) \<and>
      (\<forall>p \<in> set (inflight w @ waiting w). fst p < next_id w) \<and>
      (\<forall>p \<in> set (waiting w). retry (snd (snd p))))"

text \<open>A request of a public method that is on the network and has not been retried; and
  the events in which each request of a list is answered with an error of its own.\<close>

definition fresh_request :: "world \<Rightarrow> nat \<Rightarrow> bool" where
  "fresh_request w i =
     (case lookup i (inflight w) of
        None \<Rightarrow> False
      | Some (a, cfg) \<Rightarrow> a \<noteq> Refresh \<and> \<not> retry cfg)"

definition park :: "nat \<Rightarrow> awaiter \<times> request_config \<Rightarrow> pending" where
  "park i ac = (i, fst ac, (snd ac)\<lparr>retry := True\<rparr>)"

definition parked :: "world \<Rightarrow> nat \<Rightarrow> pending option" where
  "parked w i = map_option (park i) (lookup i (inflight w))"

definition answers :: "nat list \<Rightarrow> (nat \<Rightarrow> axios_error) \<Rightarrow> event list" where
  "answers ids err = map (\<lambda>i. Answer i (Inl (err i))) ids"

text \<open>The answers to the refresh call after which \<^verbatim>\<open>doRefreshToken\<close> goes on: a response,
  or an error that is not a 401 response.\<close>

definition passes_interceptor :: "axios_error + axios_response \<Rightarrow> bool" where
  "passes_interceptor x = (case x of Inl error \<Rightarrow> \<not> unauthorized error | Inr r \<Rightarrow> True)"

text \<open>Values for the examples: what \<^verbatim>\<open>localStorage\<close> holds after a login, a rejection
  with a status, an error without a response, and a response with tokens in its data.\<close>

definition stored_pair :: "string \<Rightarrow> string \<Rightarrow> (string \<rightharpoonup> string)" where
  "stored_pair acc rfr = [''accessToken'' \<mapsto> acc, ''refreshToken'' \<mapsto> rfr]"

definition rejection :: "nat \<Rightarrow> axios_error" where
  "rejection st =
     \<lparr>err_message = ''Request failed'',
      response = Some \<lparr>resp_status = st,
                       resp_data = \<lparr>access = None, refresh = None, content = ''detail''\<rparr>\<rparr>\<rparr>"

definition network_error :: axios_error where
  "network_error = \<lparr>err_message = ''Network Error'', response = None\<rparr>"

definition token_response :: "string option \<Rightarrow> string option \<Rightarrow> axios_response" where
  "token_response acc rfr =
     \<lparr>resp_status = 200, resp_data = \<lparr>access = acc, refresh = rfr, content = []\<rparr>\<rparr>"

text \<open>The scenario of the specification: a session is restored from storage, three
  requests are issued at once with its access token, and all three are answered 401.\<close>

definition three_requests :: world where
  "three_requests =
     run [Call getNodes, Call getEdges, Call getTransactions]
       (constructor (stored_pair ''T1'' ''R1''))"

definition expired_session :: world where
  "expired_session = run (answers [0, 1, 2] (\<lambda>i. rejection 401)) three_requests"

text \<open>The refresh call of that scenario is answered 401 in its turn.\<close>

definition rejected_refresh :: world where
  "rejected_refresh = step (Answer 3 (Inl (rejection 401))) expired_session"

text \<open>A user with a stored session logs in again; the server rejects the credentials with
  401, and the refresh call that follows fails on the network.\<close>

definition rejected_login :: world where
  "rejected_login =
     run [CallLogin ''user'' ''wrong'', Answer 0 (Inl (rejection 401)), Answer 1 (Inl network_error)]
       (constructor (stored_pair ''T1'' ''R1''))"

text \<open>A state in which \<^verbatim>\<open>refreshing\<close> is set and no refresh call is on the network, with the
  calls numbered below \<open>n\<close> neither on the network nor ended.\<close>

definition blocked :: "nat \<Rightarrow> world \<Rightarrow> bool" where
  "blocked n w =
     (refreshing w \<and> filter is_refresher (inflight w) = [] \<and>
      filter (\<lambda>p. fst p < n) (inflight w) = [] \<and>
      filter (\<lambda>p. fst p < n) (results w) = [] \<and> n \<le> next_id w)"

text \<open>An entry of the log of results that is not a failure of a CRUD, delete or simulation
  method, or is one made by \<open>handleError\<close>.\<close>

abbreviation surfaced_by_handleError :: "nat \<times> awaiter \<times> result \<Rightarrow> bool" where
  "surfaced_by_handleError p \<equiv>
     (fst (snd p) = Crud \<or> fst (snd p) = Delete \<longrightarrow>
        (\<forall>f. snd (snd p) = Threw f \<longrightarrow> (\<exists>error. f = Api (handleError error))))"

section \<open>Basic facts\<close>

subsection \<open>What the steps leave unchanged\<close>

lemma deliver_found:
  "lookup i (inflight w) = Some (a, cfg) \<Longrightarrow>
   deliver i x w =
     (let w' = w\<lparr>inflight := filter (\<lambda>p. fst p \<noteq> i) (inflight w)\<rparr>
      in case x of Inr r \<Rightarrow> settle a i (Inr r) w' | Inl error \<Rightarrow> interceptor i a cfg error w')"
  by (auto simp: lookup_def deliver_def split: option.splits)

lemma deliver_missing: "lookup i (inflight w) = None \<Longrightarrow> deliver i x w = w"
  by (auto simp: lookup_def deliver_def split: option.splits)

lemma lookup_Some_mem: "lookup i ps = Some (a, cfg) \<Longrightarrow> (i, a, cfg) \<in> set ps"
  by (induction ps) (auto simp: lookup_def split: if_splits)

lemma fold_resume_token:
  "fold (interceptor_resume (Inr t)) ws w =
     w\<lparr>inflight := inflight w @ map (stamp t) ws,
       sent := sent w @ map (\<lambda>p. snd (snd (stamp t p))) ws\<rparr>"
  by (induction ws arbitrary: w) (auto simp: send_def stamp_def)

lemma logout_fields [simp]:
  "inflight (logout w) = inflight w" "waiting (logout w) = waiting w"
  "refreshing (logout w) = refreshing w" "next_id (logout w) = next_id w"
  "sent (logout w) = sent w" "results (logout w) = results w"
  by (simp_all add: logout_def)

lemma finish_fields [simp]:
  "inflight (finish a i x w) = inflight w" "waiting (finish a i x w) = waiting w"
  "refreshing (finish a i x w) = refreshing w" "next_id (finish a i x w) = next_id w"
  "sent (finish a i x w) = sent w"
  by (cases a; cases x;
      simp add: record_result_def login_resume_def doRefreshToken_resume_def logout_def
        setAuthHeader_def split: option.splits)+

lemma fold_resume_error_all:
  "inflight (fold (interceptor_resume (Inl e)) ws w) = inflight w \<and>
   waiting (fold (interceptor_resume (Inl e)) ws w) = waiting w \<and>
   refreshing (fold (interceptor_resume (Inl e)) ws w) = refreshing w \<and>
   next_id (fold (interceptor_resume (Inl e)) ws w) = next_id w \<and>
   sent (fold (interceptor_resume (Inl e)) ws w) = sent w"
proof (induction ws arbitrary: w)
  case Nil
  show ?case by simp
next
  case (Cons p ws)
  obtain i a cfg where p: "p = (i, a, cfg)" by (cases p)
  show ?case using Cons [of "finish a i (Inl e) (logout w)"] by (simp add: p)
qed

lemma fold_resume_error_fields [simp]:
  "inflight (fold (interceptor_resume (Inl e)) ws w) = inflight w"
  "waiting (fold (interceptor_resume (Inl e)) ws w) = waiting w"
  "refreshing (fold (interceptor_resume (Inl e)) ws w) = refreshing w"
  "next_id (fold (interceptor_resume (Inl e)) ws w) = next_id w"
  "sent (fold (interceptor_resume (Inl e)) ws w) = sent w"
  using fold_resume_error_all [of e ws w] by simp_all

lemma doRefreshToken_resume_fields [simp]:
  "inflight (fst (doRefreshToken_resume x w)) = inflight w"
  "waiting (fst (doRefreshToken_resume x w)) = waiting w"
  "refreshing (fst (doRefreshToken_resume x w)) = refreshing w"
  "next_id (fst (doRefreshToken_resume x w)) = next_id w"
  "sent (fst (doRefreshToken_resume x w)) = sent w"
  "results (fst (doRefreshToken_resume x w)) = results w"
  by (simp_all add: doRefreshToken_resume_def logout_def setAuthHeader_def split: sum.splits option.splits)

lemma refresh_settled_fields:
  "refreshing (refresh_settled x w) = False \<and>
   waiting (refresh_settled x w) = [] \<and>
   next_id (refresh_settled x w) = next_id w \<and>
   (inflight (refresh_settled x w) = inflight w \<or>
    (\<exists>t. inflight (refresh_settled x w) = inflight w @ map (stamp t) (waiting w)))"
proof -
  obtain w' out where eq: "doRefreshToken_resume x w = (w', out)"
    by (cases "doRefreshToken_resume x w")
  have w': "inflight w' = inflight w" "waiting w' = waiting w" "next_id w' = next_id w"
    using doRefreshToken_resume_fields [of x w] by (simp_all add: eq)
  show ?thesis
  proof (cases out)
    case (Inl e)
    then show ?thesis by (simp add: refresh_settled_def eq w')
  next
    case (Inr t)
    then show ?thesis by (auto simp add: refresh_settled_def eq w' fold_resume_token)
  qed
qed

lemma awaiter_of_not_refresh [simp]: "awaiter_of opn \<noteq> Refresh"
  by (cases opn) simp_all

lemma request_of_not_refresh: "request_of opn = (m, u, b) \<Longrightarrow> u \<noteq> ''token/refresh/''"
  by (cases opn) auto

lemma is_refresher_stamp [simp]: "is_refresher (stamp t p) = is_refresher p"
  "fst (stamp t p) = fst p" "is_refresh_call (snd (snd (stamp t p))) = is_refresh_call (snd (snd p))"
  by (simp_all add: is_refresher_def stamp_def is_refresh_call_def)

lemma filter_conj_le: "length (filter (\<lambda>x. P x \<and> Q x) ps) \<le> length (filter Q ps)"
  by (induction ps) auto

lemma filter_removed_count:
  "(i, a, cfg) \<in> set ps \<Longrightarrow>
   length (filter Q (filter (\<lambda>p. fst p \<noteq> i) ps)) + (if Q (i, a, cfg) then 1 else 0)
     \<le> length (filter Q ps)"
proof (induction ps)
  case Nil
  then show ?case by simp
next
  case (Cons p ps)
  have le: "length (filter (\<lambda>x. fst x \<noteq> i \<and> Q x) ps) \<le> length (filter Q ps)"
    by (rule filter_conj_le)
  show ?case
  proof (cases "p = (i, a, cfg)")
    case True
    with le show ?thesis by auto
  next
    case False
    with Cons have "(i, a, cfg) \<in> set ps" by simp
    from Cons.IH [OF this] show ?thesis by auto
  qed
qed

lemma wellformed_step_call:
  assumes "wellformed w" "u \<noteq> ''token/refresh/''" "a \<noteq> Refresh"
  shows "wellformed (axios_call a m u b w)"
  using assms by (auto simp: wellformed_def axios_call_def send_def is_refresher_def is_refresh_call_def less_Suc_eq)

lemma wellformed_logout: "wellformed (logout w) = wellformed w"
  by (simp add: wellformed_def)

lemma wellformed_finish: "wellformed (finish a i x w) = wellformed w"
  by (simp add: wellformed_def)

lemma wellformed_removed:
  assumes "wellformed w"
  shows "wellformed (w\<lparr>inflight := filter P (inflight w)\<rparr>)"
proof -
  have "length (filter is_refresher (filter P (inflight w))) \<le> length (filter is_refresher (inflight w))"
    by (simp add: filter_conj_le)
  with assms show ?thesis by (auto simp: wellformed_def)
qed


lemma wellformed_settle:
  assumes wf: "wellformed w"
    and none: "a = Refresh \<Longrightarrow> filter is_refresher (inflight w @ waiting w) = []"
  shows "wellformed (settle a i x w)"
proof (cases "a = Refresh")
  case False
  then show ?thesis using wf by (simp add: settle_def wellformed_finish)
next
  case True
  let ?w = "refresh_settled x w"
  note f = refresh_settled_fields [of x w]
  from none [OF True] have no: "filter is_refresher (inflight w) = []" "filter is_refresher (waiting w) = []"
    by simp_all
  from f have "inflight ?w = inflight w \<or> (\<exists>t. inflight ?w = inflight w @ map (stamp t) (waiting w))"
    by simp
  then have "(\<forall>p \<in> set (inflight ?w). fst p < next_id w \<and> is_refresher p = is_refresh_call (snd (snd p)))
      \<and> filter is_refresher (inflight ?w) = []"
  proof
    assume "inflight ?w = inflight w"
    then show ?thesis using wf no by (simp add: wellformed_def)
  next
    assume "\<exists>t. inflight ?w = inflight w @ map (stamp t) (waiting w)"
    then obtain t where t: "inflight ?w = inflight w @ map (stamp t) (waiting w)" ..
    from wf have all: "\<forall>p \<in> set (waiting w). fst p < next_id w \<and> is_refresher p = is_refresh_call (snd (snd p))"
      by (simp add: wellformed_def ball_Un)
    have "\<forall>p \<in> set (map (stamp t) (waiting w)). fst p < next_id w \<and> is_refresher p = is_refresh_call (snd (snd p))"
      using all by simp
    moreover have "filter is_refresher (map (stamp t) (waiting w)) = []"
      using no by (simp add: filter_map comp_def)
    ultimately show ?thesis using wf no by (simp add: wellformed_def t ball_Un)
  qed
  then show ?thesis using f True by (simp add: wellformed_def settle_def)
qed

lemma wellformed_deliver:
  assumes wf: "wellformed w"
  shows "wellformed (deliver i x w)"
proof (cases "lookup i (inflight w)")
  case None
  then show ?thesis using wf by (simp add: deliver_missing)
next
  case (Some ac)
  obtain a cfg where ac: "ac = (a, cfg)" by (cases ac)
  with Some have look: "lookup i (inflight w) = Some (a, cfg)" by simp
  then have mem: "(i, a, cfg) \<in> set (inflight w)" by (rule lookup_Some_mem)
  define w0 where "w0 = w\<lparr>inflight := filter (\<lambda>p. fst p \<noteq> i) (inflight w)\<rparr>"
  have wf0: "wellformed w0" unfolding w0_def using wf by (rule wellformed_removed)
  have w0: "waiting w0 = waiting w" "refreshing w0 = refreshing w" "next_id w0 = next_id w"
    by (simp_all add: w0_def)
  from wf have "\<forall>p \<in> set (inflight w). fst p < next_id w \<and> is_refresher p = is_refresh_call (snd (snd p))"
    by (simp add: wellformed_def ball_Un)
  from bspec [OF this mem] have i: "i < next_id w" and link: "(a = Refresh) = is_refresh_call cfg"
    by (simp_all add: is_refresher_def)
  have count: "length (filter is_refresher (inflight w0)) + (if a = Refresh then 1 else 0)
      \<le> length (filter is_refresher (inflight w))"
    using filter_removed_count [OF mem, of is_refresher] by (simp add: w0_def is_refresher_def)
  from wf have bound: "length (filter is_refresher (inflight w)) + length (filter is_refresher (waiting w))
      \<le> (if refreshing w then 1 else 0)"
    by (simp add: wellformed_def)
  have "length (filter is_refresher (inflight w0)) + length (filter is_refresher (waiting w)) \<le> 0"
    if "a = Refresh"
    using count bound that by (cases "refreshing w") (simp_all del: length_0_conv)
  then have none: "a = Refresh \<Longrightarrow> filter is_refresher (inflight w0 @ waiting w0) = []"
    by (simp add: w0)
  have settled: "wellformed (settle a i y w0)" for y
    using wf0 none by (rule wellformed_settle)
  show ?thesis
  proof (cases x)
    case (Inr r)
    then show ?thesis using settled by (simp add: deliver_found [OF look] w0_def)
  next
    case (Inl e)
    let ?p = "(i, a, cfg\<lparr>retry := True\<rparr>)"
    have park: "wellformed (refreshAccessToken ?p w0)"
    proof (cases "refreshing w")
      case True
      have "length (filter is_refresher (inflight w0 @ waiting w0 @ [?p])) =
          length (filter is_refresher (inflight w0)) + length (filter is_refresher (waiting w)) +
          (if a = Refresh then 1 else 0)"
        by (simp add: w0 is_refresher_def)
      moreover have "length (filter is_refresher (inflight w0)) + length (filter is_refresher (waiting w)) +
          (if a = Refresh then 1 else 0) \<le> (1::nat)"
        using count bound True by (cases "a = Refresh") (simp_all del: length_0_conv)
      ultimately have "length (filter is_refresher (inflight w0 @ waiting w0 @ [?p])) \<le> 1"
        by (simp only:)
      moreover have "\<forall>p \<in> set (inflight w0 @ waiting w0 @ [?p]).
          fst p < next_id w0 \<and> is_refresher p = is_refresh_call (snd (snd p))"
        using wf0 i link by (auto simp: wellformed_def w0 is_refresher_def is_refresh_call_def)
      ultimately show ?thesis using True
        by (simp add: refreshAccessToken_def w0 wellformed_def)
    next
      case False
      with bound count have a: "a \<noteq> Refresh" by (auto split: if_splits)
      from False wf have nowait: "waiting w = []" by (simp add: wellformed_def)
      from False bound have norf: "filter is_refresher (inflight w) = []" by simp
      then have norf0: "filter is_refresher (inflight w0) = []"
        using count by simp
      show ?thesis
      proof (cases "truthy (refreshToken w0)")
        case no: False
        then show ?thesis using False wf0
          by (simp add: refreshAccessToken_def doRefreshToken_def w0 wellformed_finish wellformed_logout)
      next
        case yes: True
        have "\<forall>p \<in> set (inflight w0). fst p < Suc (next_id w) \<and> is_refresher p = is_refresh_call (snd (snd p))"
          using wf0 by (auto simp: wellformed_def w0 less_Suc_eq)
        then show ?thesis using False yes a i link norf0 nowait
          by (simp add: refreshAccessToken_def doRefreshToken_def w0 axios_call_def send_def
              wellformed_def is_refresher_def is_refresh_call_def)
      qed
    qed
    show ?thesis
      using Inl settled park by (simp add: deliver_found [OF look] w0_def [symmetric] interceptor_def Let_def)
  qed
qed

lemma wellformed_step: "wellformed w \<Longrightarrow> wellformed (step ev w)"
proof (cases ev)
  case (Call opn)
  assume "wellformed w"
  then show ?thesis using Call
    by (cases "request_of opn")
      (auto simp: crud_def intro!: wellformed_step_call dest: request_of_not_refresh)
next
  case (CallLogin u p)
  assume "wellformed w"
  then show ?thesis using CallLogin by (simp add: login_def wellformed_step_call)
next
  case CallLogout
  assume "wellformed w"
  then show ?thesis using CallLogout by (simp add: wellformed_logout)
next
  case (Answer i x)
  assume "wellformed w"
  then show ?thesis using Answer by (simp add: wellformed_deliver)
qed

lemma wellformed_run: "wellformed w \<Longrightarrow> wellformed (run evs w)"
  by (induction evs arbitrary: w) (simp_all add: run_def wellformed_step)

lemma wellformed_constructor: "wellformed (constructor storage)"
  by (simp add: constructor_def wellformed_def setAuthHeader_def Let_def split: option.splits)

lemma no_refresher_waits:
  assumes "wellformed w" "lookup k (inflight w) = Some (Refresh, rc)"
  shows "\<forall>p \<in> set (waiting w). \<not> is_refresher p"
proof -
  from assms(2) have "(k, Refresh, rc) \<in> set (inflight w)" by (rule lookup_Some_mem)
  then have "filter is_refresher (inflight w) \<noteq> []"
    by (force simp: filter_empty_conv is_refresher_def)
  then have "1 \<le> length (filter is_refresher (inflight w))"
    by (simp add: Suc_le_eq)
  moreover from assms(1) have "length (filter is_refresher (inflight w)) +
      length (filter is_refresher (waiting w)) \<le> 1"
    by (simp add: wellformed_def split: if_splits)
  ultimately have "length (filter is_refresher (waiting w)) = 0" by linarith
  then show ?thesis by (simp add: filter_empty_conv)
qed

subsection \<open>A batch of unauthorized answers\<close>

lemma lookup_filter_other:
  "j \<noteq> i \<Longrightarrow> lookup j (filter (\<lambda>p. fst p \<noteq> i) ps) = lookup j ps"
  by (induction ps) (auto simp: lookup_def)

lemma lookup_append_found:
  "lookup j ps = Some v \<Longrightarrow> lookup j (ps @ qs) = Some v"
  by (induction ps) (auto simp: lookup_def split: if_splits)

lemma lookup_append_missing:
  "\<forall>p \<in> set ps. fst p \<noteq> j \<Longrightarrow> lookup j (ps @ qs) = lookup j qs"
  by (induction ps) (auto simp: lookup_def)

lemma map_filter_cong_set:
  "(\<And>x. x \<in> set xs \<Longrightarrow> f x = g x) \<Longrightarrow> List.map_filter f xs = List.map_filter g xs"
proof (induction xs)
  case Nil
  show ?case by (simp add: map_filter_simps)
next
  case (Cons a xs)
  then have "List.map_filter f xs = List.map_filter g xs" by simp
  moreover have "f a = g a" using Cons.prems by simp
  ultimately show ?case by (simp add: map_filter_simps split: option.splits)
qed

lemma park_one:
  assumes "lookup i (inflight w) = Some (a, cfg)" "\<not> retry cfg" "unauthorized e" "refreshing w"
  shows "deliver i (Inl e) w =
           w\<lparr>inflight := filter (\<lambda>p. fst p \<noteq> i) (inflight w),
             waiting := waiting w @ [(i, a, cfg\<lparr>retry := True\<rparr>)]\<rparr>"
  using assms
  by (simp add: deliver_found interceptor_def refreshAccessToken_def unauthorized_def)

lemma park_batch:
  assumes "refreshing w" "distinct ids" "\<forall>i \<in> set ids. fresh_request w i"
    "\<forall>i \<in> set ids. unauthorized (err i)"
  shows "run (answers ids err) w =
           w\<lparr>inflight := filter (\<lambda>p. fst p \<notin> set ids) (inflight w),
             waiting := waiting w @ List.map_filter (parked w) ids\<rparr>"
  using assms
proof (induction ids arbitrary: w)
  case Nil
  then show ?case by (simp add: run_def answers_def)
next
  case (Cons i ids)
  from Cons.prems obtain a cfg where look: "lookup i (inflight w) = Some (a, cfg)" and nr: "\<not> retry cfg"
    by (auto simp: fresh_request_def split: option.splits)
  let ?w1 = "w\<lparr>inflight := filter (\<lambda>p. fst p \<noteq> i) (inflight w),
             waiting := waiting w @ [(i, a, cfg\<lparr>retry := True\<rparr>)]\<rparr>"
  have s1: "step (Answer i (Inl (err i))) w = ?w1"
    using look nr Cons.prems by (simp add: park_one)
  have other: "lookup j (inflight ?w1) = lookup j (inflight w)" if "j \<in> set ids" for j
  proof -
    from that Cons.prems(2) have "j \<noteq> i" by auto
    then show ?thesis by (simp add: lookup_filter_other)
  qed
  have fr: "\<forall>j \<in> set ids. fresh_request ?w1 j"
    using Cons.prems(3) other by (simp add: fresh_request_def)
  have pk: "List.map_filter (parked ?w1) ids = List.map_filter (parked w) ids"
    using other by (intro map_filter_cong_set) (simp add: parked_def)
  have "run (answers (i # ids) err) w = run (answers ids err) ?w1"
    using s1 by (simp add: run_def answers_def)
  also have "\<dots> = ?w1\<lparr>inflight := filter (\<lambda>p. fst p \<notin> set ids) (inflight ?w1),
             waiting := waiting ?w1 @ List.map_filter (parked ?w1) ids\<rparr>"
    using Cons.prems fr by (intro Cons.IH) simp_all
  also have "\<dots> = w\<lparr>inflight := filter (\<lambda>p. fst p \<notin> set (i # ids)) (inflight w),
             waiting := waiting w @ List.map_filter (parked w) (i # ids)\<rparr>"
    using look by (simp add: pk parked_def park_def map_filter_simps conj_commute)
  finally show ?case .
qed


lemma lead_one:
  assumes "lookup i (inflight w) = Some (a, cfg)" "\<not> retry cfg" "unauthorized e"
    "\<not> refreshing w" "truthy (refreshToken w)"
  shows "deliver i (Inl e) w =
           w\<lparr>inflight := filter (\<lambda>p. fst p \<noteq> i) (inflight w) @ [(next_id w, Refresh, refresh_request w)],
             sent := sent w @ [refresh_request w],
             refreshing := True,
             waiting := waiting w @ [(i, a, cfg\<lparr>retry := True\<rparr>)],
             next_id := Suc (next_id w)\<rparr>"
  using assms
  by (simp add: deliver_found interceptor_def refreshAccessToken_def doRefreshToken_def
      unauthorized_def axios_call_def send_def refresh_request_def)

lemma fail_fast_one:
  assumes "lookup i (inflight w) = Some (a, cfg)" "\<not> retry cfg" "unauthorized e"
    "\<not> refreshing w" "\<not> truthy (refreshToken w)"
  shows "deliver i (Inl e) w =
           finish a i (Inl (Error ''No refresh token available''))
             (logout (w\<lparr>inflight := filter (\<lambda>p. fst p \<noteq> i) (inflight w)\<rparr>))"
  using assms
  by (simp add: deliver_found interceptor_def refreshAccessToken_def doRefreshToken_def
      unauthorized_def)

lemma wellformed_inflight:
  assumes "wellformed w" "lookup i (inflight w) = Some (a, cfg)"
  shows "i < next_id w" "(a = Refresh) = is_refresh_call cfg"
proof -
  from assms(2) have mem: "(i, a, cfg) \<in> set (inflight w)" by (rule lookup_Some_mem)
  from assms(1) have "\<forall>p \<in> set (inflight w). fst p < next_id w \<and> is_refresher p = is_refresh_call (snd (snd p))"
    by (simp add: wellformed_def ball_Un)
  from bspec [OF this mem] show "i < next_id w" "(a = Refresh) = is_refresh_call cfg"
    by (simp_all add: is_refresher_def)
qed

lemma wellformed_idle:
  assumes "wellformed w" "\<not> refreshing w"
  shows "waiting w = []" "filter is_refresher (inflight w) = []"
  using assms by (simp_all add: wellformed_def)

lemma parked_ids:
  "\<forall>i \<in> set ids. fresh_request w i \<Longrightarrow> map fst (List.map_filter (parked w) ids) = ids"
  by (induction ids)
    (auto simp: map_filter_simps parked_def park_def fresh_request_def split: option.splits)

lemma parked_mem:
  "p \<in> set (List.map_filter (parked w) ids) \<Longrightarrow>
   \<exists>i a cfg. i \<in> set ids \<and> lookup i (inflight w) = Some (a, cfg) \<and> p = (i, a, cfg\<lparr>retry := True\<rparr>)"
  by (induction ids)
    (auto simp: map_filter_simps parked_def park_def split: option.splits)

lemma batch:
  assumes wf: "wellformed w" and idle: "\<not> refreshing w" and tok: "truthy (refreshToken w)"
    and ids: "distinct ids" "ids \<noteq> []" "\<forall>i \<in> set ids. fresh_request w i"
    and err: "\<forall>i \<in> set ids. unauthorized (err i)"
  shows "run (answers ids err) w =
           w\<lparr>inflight := filter (\<lambda>p. fst p \<notin> set ids) (inflight w) @ [(next_id w, Refresh, refresh_request w)],
             sent := sent w @ [refresh_request w],
             refreshing := True,
             waiting := List.map_filter (parked w) ids,
             next_id := Suc (next_id w)\<rparr>"
proof -
  from ids(2) obtain i ids' where split: "ids = i # ids'" by (cases ids) auto
  from ids(3) split obtain a cfg where look: "lookup i (inflight w) = Some (a, cfg)" and nr: "\<not> retry cfg"
    by (auto simp: fresh_request_def split: option.splits)
  let ?new = "(next_id w, Refresh, refresh_request w)"
  let ?w1 = "w\<lparr>inflight := filter (\<lambda>p. fst p \<noteq> i) (inflight w) @ [?new],
             sent := sent w @ [refresh_request w],
             refreshing := True,
             waiting := waiting w @ [(i, a, cfg\<lparr>retry := True\<rparr>)],
             next_id := Suc (next_id w)\<rparr>"
  have s1: "deliver i (Inl (err i)) w = ?w1"
    using look nr err idle tok by (simp add: lead_one split)
  have below: "j < next_id w" if "j \<in> set ids" for j
  proof -
    from that ids(3) obtain b c where "lookup j (inflight w) = Some (b, c)"
      by (auto simp: fresh_request_def split: option.splits)
    with wf show ?thesis by (rule wellformed_inflight)
  qed
  have other: "lookup j (inflight ?w1) = lookup j (inflight w)" if "j \<in> set ids'" for j
  proof -
    from that ids(1) split have ne: "j \<noteq> i" by auto
    from that ids(3) split obtain b c where l: "lookup j (inflight w) = Some (b, c)"
      by (auto simp: fresh_request_def split: option.splits)
    then have "lookup j (filter (\<lambda>p. fst p \<noteq> i) (inflight w)) = Some (b, c)"
      using ne by (simp add: lookup_filter_other)
    then show ?thesis using l by (simp add: lookup_append_found)
  qed
  have fr: "\<forall>j \<in> set ids'. fresh_request ?w1 j"
    using ids(3) other by (simp add: fresh_request_def split)
  have pk: "List.map_filter (parked ?w1) ids' = List.map_filter (parked w) ids'"
    using other by (intro map_filter_cong_set) (simp add: parked_def)
  have "next_id w \<notin> set ids"
    using below by auto
  then have flt: "filter (\<lambda>p. fst p \<notin> set ids') (filter (\<lambda>p. fst p \<noteq> i) (inflight w) @ [?new])
      = filter (\<lambda>p. fst p \<notin> set ids) (inflight w) @ [?new]"
    by (auto simp: split conj_commute)
  have "run (answers ids err) w = run (answers ids' err) ?w1"
    using s1 by (simp add: run_def answers_def split)
  also have "\<dots> = ?w1\<lparr>inflight := filter (\<lambda>p. fst p \<notin> set ids') (inflight ?w1),
             waiting := waiting ?w1 @ List.map_filter (parked ?w1) ids'\<rparr>"
    using ids(1) err fr by (intro park_batch) (simp_all add: split)
  also have "\<dots> = w\<lparr>inflight := filter (\<lambda>p. fst p \<notin> set ids) (inflight w) @ [?new],
             sent := sent w @ [refresh_request w],
             refreshing := True,
             waiting := List.map_filter (parked w) ids,
             next_id := Suc (next_id w)\<rparr>"
    unfolding pk using look wellformed_idle(1) [OF wf idle] flt
    by (simp add: split map_filter_simps parked_def park_def)
  finally show ?thesis .
qed

lemma fold_resume_error_results:
  "\<forall>p \<in> set ws. \<not> is_refresher p \<Longrightarrow>
   results (fold (interceptor_resume (Inl e)) ws w) =
     results w @ map (\<lambda>p. (fst p, fst (snd p), Threw (Api (handleError e)))) ws"
proof (induction ws arbitrary: w)
  case Nil
  show ?case by simp
next
  case (Cons p ws)
  obtain i a cfg where p: "p = (i, a, cfg)" by (cases p)
  with Cons.prems have a: "a \<noteq> Refresh" by (simp add: is_refresher_def)
  have "results (finish a i (Inl e) (logout w)) = results w @ [(i, a, Threw (Api (handleError e)))]"
    using a by (cases a) (simp_all add: record_result_def)
  then show ?case using Cons by (simp add: p)
qed


lemma refresh_calls_append [simp]: "refresh_calls (xs @ ys) = refresh_calls xs + refresh_calls ys"
  by (simp add: refresh_calls_def)

lemma refresh_calls_Nil [simp]: "refresh_calls [] = 0"
  by (simp add: refresh_calls_def)

lemma refresh_calls_Cons [simp]:
  "refresh_calls (c # cs) = (if is_refresh_call c then 1 else 0) + refresh_calls cs"
  by (simp add: refresh_calls_def)

lemma is_refresh_call_request [simp]: "is_refresh_call (refresh_request w)"
  by (simp add: refresh_request_def is_refresh_call_def)

lemma refresh_calls_request [simp]: "refresh_calls [refresh_request w] = 1"
  by (simp add: refresh_calls_def refresh_request_def is_refresh_call_def)

lemma refresh_calls_none:
  "\<forall>c \<in> set cs. \<not> is_refresh_call c \<Longrightarrow> refresh_calls cs = 0"
  by (simp add: refresh_calls_def)

lemma refresh_settled_token:
  assumes "doRefreshToken_resume x w = (w', Inr t)"
  shows "refresh_settled x w =
           w'\<lparr>refreshing := False, waiting := [],
              inflight := inflight w @ map (stamp t) (waiting w),
              sent := sent w @ map (\<lambda>p. snd (snd (stamp t p))) (waiting w)\<rparr>"
  using assms doRefreshToken_resume_fields [of x w]
  by (simp add: refresh_settled_def fold_resume_token)

lemma refresh_settled_error:
  assumes "doRefreshToken_resume x w = (w', Inl e)"
  shows "refresh_settled x w =
           fold (interceptor_resume (Inl e)) (waiting w) (w'\<lparr>refreshing := False, waiting := []\<rparr>)"
  using assms doRefreshToken_resume_fields [of x w]
  by (simp add: refresh_settled_def)

lemma deliver_refresh:
  assumes "lookup k (inflight w) = Some (Refresh, rc)" "passes_interceptor x"
  shows "deliver k x w = refresh_settled x (w\<lparr>inflight := filter (\<lambda>p. fst p \<noteq> k) (inflight w)\<rparr>)"
  using assms
  by (cases x)
    (simp_all add: deliver_found interceptor_def settle_def passes_interceptor_def unauthorized_def)

lemma resolve:
  assumes wf: "wellformed w" and idle: "\<not> refreshing w" and tok: "truthy (refreshToken w)"
    and ids: "distinct ids" "ids \<noteq> []" "\<forall>i \<in> set ids. fresh_request w i"
    and err: "\<forall>i \<in> set ids. unauthorized (err i)"
    and x: "passes_interceptor x"
  defines "w3 \<equiv> deliver (next_id w) x (run (answers ids err) w)"
  shows "waiting w3 = [] \<and> \<not> refreshing w3 \<and>
         (\<forall>i \<in> set ids. i \<in> fst ` set (inflight w3) \<or> i \<in> fst ` set (results w3)) \<and>
         refresh_calls (sent w3) = refresh_calls (sent w) + 1"
proof -
  let ?rr = "refresh_request w"
  let ?ws = "List.map_filter (parked w) ids"
  let ?w2 = "w\<lparr>inflight := filter (\<lambda>p. fst p \<notin> set ids) (inflight w) @ [(next_id w, Refresh, ?rr)],
             sent := sent w @ [?rr],
             refreshing := True,
             waiting := ?ws,
             next_id := Suc (next_id w)\<rparr>"
  have w2: "run (answers ids err) w = ?w2"
    using assms(1-7) by (rule batch)
  from wf have lt: "\<forall>p \<in> set (inflight w). fst p < next_id w"
    by (simp add: wellformed_def ball_Un)
  then have ne: "\<forall>p \<in> set (filter (\<lambda>p. fst p \<notin> set ids) (inflight w)). fst p \<noteq> next_id w"
    by auto
  have look: "lookup (next_id w) (inflight ?w2) = Some (Refresh, ?rr)"
    using ne by (simp add: lookup_append_missing) (simp add: lookup_def)
  have rest: "filter (\<lambda>p. fst p \<noteq> next_id w) (inflight ?w2) = filter (\<lambda>p. fst p \<notin> set ids) (inflight w)"
  proof -
    have "filter (\<lambda>p. fst p \<noteq> next_id w) (filter (\<lambda>p. fst p \<notin> set ids) (inflight w))
        = filter (\<lambda>p. fst p \<notin> set ids) (inflight w)"
      by (rule iffD2 [OF filter_id_conv]) (rule ne)
    then show ?thesis by (simp del: filter_filter)
  qed
  define w2' where "w2' = ?w2\<lparr>inflight := filter (\<lambda>p. fst p \<notin> set ids) (inflight w)\<rparr>"
  have f2: "waiting w2' = ?ws" "sent w2' = sent w @ [?rr]" "results w2' = results w"
    "inflight w2' = filter (\<lambda>p. fst p \<notin> set ids) (inflight w)"
    by (simp_all add: w2'_def)
  have w3: "w3 = refresh_settled x w2'"
    unfolding w3_def w2 w2'_def
    using deliver_refresh [OF look x] rest by simp
  have wsp: "\<not> is_refresher p \<and> \<not> is_refresh_call (snd (snd p))" if "p \<in> set ?ws" for p
  proof -
    from parked_mem [OF that] obtain i a cfg where i: "i \<in> set ids"
      and l: "lookup i (inflight w) = Some (a, cfg)" and p: "p = (i, a, cfg\<lparr>retry := True\<rparr>)"
      by blast
    from ids(3) i l have "a \<noteq> Refresh" by (auto simp: fresh_request_def)
    with wellformed_inflight(2) [OF wf l] show ?thesis
      by (simp add: p is_refresher_def is_refresh_call_def)
  qed
  have fst_ws: "map fst ?ws = ids" using ids(3) by (rule parked_ids)
  obtain w' out where eq: "doRefreshToken_resume x w2' = (w', out)"
    by (cases "doRefreshToken_resume x w2'")
  have w': "sent w' = sent w @ [?rr]" "results w' = results w" "inflight w' = inflight w2'"
    using doRefreshToken_resume_fields [of x w2'] by (simp_all add: eq f2)
  show ?thesis
  proof (cases out)
    case (Inr t)
    have "fst ` set (map (stamp t) ?ws) = set ids"
      using fst_ws by (metis (no_types, lifting) is_refresher_stamp(2) list.set_map map_eq_conv map_map o_apply)
    moreover have "refresh_calls (map (\<lambda>p. snd (snd (stamp t p))) ?ws) = 0"
      using wsp by (intro refresh_calls_none) auto
    ultimately show ?thesis
      using refresh_settled_token [OF eq [unfolded Inr]]
      by (simp add: w3 image_Un f2)
  next
    case (Inl e)
    have "results w3 = results w @ map (\<lambda>p. (fst p, fst (snd p), Threw (Api (handleError e)))) ?ws"
      using wsp w'(2) by (simp add: w3 refresh_settled_error [OF eq [unfolded Inl]] fold_resume_error_results f2)
    then have "fst ` set (results w3) = fst ` set (results w) \<union> set ids"
      using fst_ws by (simp add: image_Un) (metis (no_types, lifting) image_image list.set_map fst_conv image_cong)
    then show ?thesis
      using w'(1) by (simp add: w3 refresh_settled_error [OF eq [unfolded Inl]] f2)
  qed
qed

subsection \<open>A refresh that succeeds\<close>

lemmas eval_defs = run_def answers_def crud_def login_def axios_call_def send_def constructor_def
  stored_pair_def setAuthHeader_def Bearer_def deliver_def interceptor_def rejection_def
  refreshAccessToken_def doRefreshToken_def truthy_def settle_def refresh_settled_def
  doRefreshToken_resume_def token_response_def logout_def record_result_def handleError_def
  Error_def network_error_def login_resume_def lookup_def stamp_def three_requests_def
  expired_session_def refresh_request_def unauthorized_def fresh_request_def

lemma refresh_success:
  assumes "lookup k (inflight w) = Some (Refresh, rc)"
    and "access (resp_data r) = Some t" and "t \<noteq> []"
  shows "deliver k (Inr r) w =
     w\<lparr>accessToken := Some t,
       localStorage := (localStorage w)(''accessToken'' \<mapsto> t),
       defaultAuthorization := Some (Bearer t),
       refreshing := False,
       waiting := [],
       inflight := filter (\<lambda>p. fst p \<noteq> k) (inflight w) @ map (stamp t) (waiting w),
       sent := sent w @ map (\<lambda>p. snd (snd (stamp t p))) (waiting w)\<rparr>"
  using assms
  by (simp add: deliver_found settle_def refresh_settled_def doRefreshToken_resume_def
      fold_resume_token setAuthHeader_def)

lemma expired_session_refresh:
  "lookup 3 (inflight expired_session) = Some (Refresh, refresh_request three_requests)"
  by (simp add: eval_defs)

lemma expired_session_waiting: "map fst (waiting expired_session) = [0, 1, 2]"
  by (simp add: eval_defs)

subsection \<open>One request for each call\<close>

lemma tidy_bound: "tidy w \<Longrightarrow> p \<in> set (inflight w) \<union> set (waiting w) \<Longrightarrow> fst p < next_id w"
  by (simp add: tidy_def)

lemma tidy_call:
  assumes "tidy w"
  shows "tidy (axios_call a m u b w)"
proof -
  have "next_id w \<notin> fst ` (set (inflight w) \<union> set (waiting w))"
    using tidy_bound [OF assms] by fastforce
  moreover have "\<forall>p \<in> set (inflight w) \<union> set (waiting w). fst p < Suc (next_id w)"
    using tidy_bound [OF assms] by (simp add: less_Suc_eq)
  ultimately show ?thesis
    using assms by (simp add: tidy_def axios_call_def send_def ball_Un image_Un)
qed

lemma tidy_finish [simp]: "tidy (finish a i x w) = tidy w"
  by (simp add: tidy_def)

lemma tidy_logout [simp]: "tidy (logout w) = tidy w"
  by (simp add: tidy_def)

lemma tidy_removed: "tidy w \<Longrightarrow> tidy (w\<lparr>inflight := filter P (inflight w)\<rparr>)"
  by (auto simp: tidy_def distinct_map_filter)

lemma tidy_settle:
  assumes "tidy w"
  shows "tidy (settle a i x w)"
proof (cases "a = Refresh")
  case False
  then show ?thesis using assms by (simp add: settle_def)
next
  case True
  obtain w' out where eq: "doRefreshToken_resume x w = (w', out)"
    by (cases "doRefreshToken_resume x w")
  from assms have d: "distinct (map fst (inflight w) @ map fst (waiting w))"
    and b1: "\<forall>p \<in> set (inflight w). fst p < next_id w"
    and b2: "\<forall>p \<in> set (waiting w). fst p < next_id w"
    by (simp_all add: tidy_def ball_Un)
  have "tidy (refresh_settled x w)"
  proof (cases out)
    case (Inl e)
    have "inflight (refresh_settled x w) = inflight w" "waiting (refresh_settled x w) = []"
      "next_id (refresh_settled x w) = next_id w"
      using doRefreshToken_resume_fields [of x w]
      by (simp_all add: refresh_settled_error [OF eq [unfolded Inl]] eq)
    then show ?thesis using d b1 by (simp add: tidy_def)
  next
    case (Inr t)
    have f: "inflight (refresh_settled x w) = inflight w @ map (stamp t) (waiting w)"
      "waiting (refresh_settled x w) = []" "next_id (refresh_settled x w) = next_id w"
      using doRefreshToken_resume_fields [of x w]
      by (simp_all add: refresh_settled_token [OF eq [unfolded Inr]] eq)
    have m: "map fst (map (stamp t) (waiting w)) = map fst (waiting w)"
      by (induction "waiting w") (simp_all add: comp_def)
    have b3: "\<forall>p \<in> set (map (stamp t) (waiting w)). fst p < next_id w"
      using b2 by simp
    show ?thesis
      unfolding tidy_def f using d b1 b3 by (simp only: map_append m append_Nil2 set_append ball_Un list.set ball_empty simp_thms)
  qed
  then show ?thesis using True by (simp add: settle_def)
qed

lemma tidy_parked:
  assumes t: "tidy w" and mem: "(i, a, cfg) \<in> set (inflight w)"
  shows "tidy (w\<lparr>inflight := filter (\<lambda>p. fst p \<noteq> i) (inflight w),
                refreshing := r,
                waiting := waiting w @ [(i, a, cfg\<lparr>retry := True\<rparr>)]\<rparr>)"
proof -
  from t have d: "distinct (map fst (inflight w))" "distinct (map fst (waiting w))"
    and disj: "fst ` set (inflight w) \<inter> fst ` set (waiting w) = {}"
    and b1: "\<forall>p \<in> set (inflight w). fst p < next_id w"
    and b2: "\<forall>p \<in> set (waiting w). fst p < next_id w"
    and fl: "\<forall>p \<in> set (waiting w). retry (snd (snd p))"
    by (simp_all add: tidy_def ball_Un)
  from mem have in1: "i \<in> fst ` set (inflight w)" by force
  with disj have nw: "i \<notin> fst ` set (waiting w)" by blast
  from b1 mem have lt: "i < next_id w" by force
  have d0: "distinct (map fst (filter (\<lambda>p. fst p \<noteq> i) (inflight w)))"
    using d(1) by (rule distinct_map_filter)
  have n0: "i \<notin> fst ` set (filter (\<lambda>p. fst p \<noteq> i) (inflight w))" by auto
  have sub: "fst ` set (filter (\<lambda>p. fst p \<noteq> i) (inflight w)) \<subseteq> fst ` set (inflight w)" by auto
  with disj have disj0: "fst ` set (filter (\<lambda>p. fst p \<noteq> i) (inflight w)) \<inter> fst ` set (waiting w) = {}"
    by blast
  have b0: "\<forall>p \<in> set (filter (\<lambda>p. fst p \<noteq> i) (inflight w)). fst p < next_id w"
    using b1 by simp
  show ?thesis
    unfolding tidy_def
    using d0 d(2) disj0 n0 nw b0 b2 fl lt
    by (simp add: ball_Un image_Un del: filter_filter set_filter)
qed

lemma tidy_deliver:
  assumes t: "tidy w"
  shows "tidy (deliver i x w)"
proof (cases "lookup i (inflight w)")
  case None
  then show ?thesis using t by (simp add: deliver_missing)
next
  case (Some ac)
  obtain a cfg where ac: "ac = (a, cfg)" by (cases ac)
  with Some have look: "lookup i (inflight w) = Some (a, cfg)" by simp
  then have mem: "(i, a, cfg) \<in> set (inflight w)" by (rule lookup_Some_mem)
  define w0 where "w0 = w\<lparr>inflight := filter (\<lambda>p. fst p \<noteq> i) (inflight w)\<rparr>"
  have t0: "tidy w0" unfolding w0_def using t by (rule tidy_removed)
  let ?p = "(i, a, cfg\<lparr>retry := True\<rparr>)"
  have parked: "tidy (w0\<lparr>refreshing := r, waiting := waiting w0 @ [?p]\<rparr>)" for r
    using tidy_parked [OF t mem, of r] by (simp add: w0_def)
  have "w0\<lparr>waiting := waiting w0 @ [?p]\<rparr> = w0\<lparr>refreshing := refreshing w0, waiting := waiting w0 @ [?p]\<rparr>"
    by simp
  then have parked1: "tidy (w0\<lparr>waiting := waiting w0 @ [?p]\<rparr>)"
    using parked [of "refreshing w0"] by (simp only:)
  have started: "tidy (axios_call Refresh POST ''token/refresh/'' (RefreshBody (refreshToken w0))
      (w0\<lparr>refreshing := True, waiting := waiting w0 @ [?p]\<rparr>))"
    using parked [of True] by (rule tidy_call)
  have park: "tidy (refreshAccessToken ?p w0)"
  proof (cases "refreshing w0")
    case True
    then show ?thesis using parked1 by (simp add: refreshAccessToken_def)
  next
    case False
    then show ?thesis using started t0
      by (cases "truthy (refreshToken w0)") (simp_all add: refreshAccessToken_def doRefreshToken_def)
  qed
  have d: "deliver i y w =
      (case y of Inr r \<Rightarrow> settle a i (Inr r) w0 | Inl error \<Rightarrow> interceptor i a cfg error w0)" for y
    unfolding w0_def by (simp add: deliver_found [OF look] Let_def)
  show ?thesis
  proof (cases x)
    case (Inr r)
    then show ?thesis using tidy_settle [OF t0] by (simp add: d)
  next
    case (Inl e)
    then show ?thesis using tidy_settle [OF t0] park by (simp add: d interceptor_def)
  qed
qed

lemma tidy_step: "tidy w \<Longrightarrow> tidy (step ev w)"
  by (cases ev) (simp_all add: crud_def login_def tidy_call tidy_deliver split: prod.splits)

lemma tidy_run: "tidy w \<Longrightarrow> tidy (run evs w)"
  by (induction evs arbitrary: w) (simp_all add: run_def tidy_step)

lemma tidy_reached: "tidy (run evs (constructor storage))"
  by (rule tidy_run) (simp add: tidy_def constructor_def setAuthHeader_def Let_def split: option.splits)

subsection \<open>Reachable states, retried requests, failed logins\<close>

lemma wellformed_reached: "wellformed (run evs (constructor storage))"
  by (simp add: wellformed_run wellformed_constructor)

lemma refresh_calls_link:
  "\<forall>p \<in> set ps. is_refresher p = is_refresh_call (snd (snd p)) \<Longrightarrow>
   refresh_calls (map (\<lambda>p. snd (snd p)) ps) = length (filter is_refresher ps)"
  by (induction ps) auto

lemma wellformed_refresh_inflight:
  assumes "wellformed w"
  shows "refresh_inflight w = length (filter is_refresher (inflight w))" "refresh_inflight w \<le> 1"
proof -
  from assms have "\<forall>p \<in> set (inflight w). is_refresher p = is_refresh_call (snd (snd p))"
    by (simp add: wellformed_def ball_Un)
  then show eq: "refresh_inflight w = length (filter is_refresher (inflight w))"
    unfolding refresh_inflight_def by (rule refresh_calls_link)
  from assms have "length (filter is_refresher (inflight w)) \<le> 1"
    by (simp add: wellformed_def split: if_splits)
  with eq show "refresh_inflight w \<le> 1" by simp
qed

lemma retried_is_terminal:
  assumes "lookup i (inflight w) = Some (a, cfg)" "retry cfg" "a \<noteq> Refresh"
  shows "deliver i (Inl e) w =
           record_result i a (Threw (Api (handleError e)))
             (w\<lparr>inflight := filter (\<lambda>p. fst p \<noteq> i) (inflight w)\<rparr>)"
  using assms by (cases a) (simp_all add: deliver_found interceptor_def settle_def)

lemma lookup_removed: "lookup i (filter (\<lambda>p. fst p \<noteq> i) ps) = None"
  by (induction ps) (auto simp: lookup_def)

lemma handleError_Error:
  "handleError (Error msg) = \<lparr>message = msg, status = 500, details = None\<rparr>"
  by (simp add: handleError_def Error_def)

lemma login_failure_unchanged:
  assumes "lookup i (inflight w) = Some (Login, cfg)" "\<not> unauthorized e \<or> retry cfg"
  shows "deliver i (Inl e) w =
           w\<lparr>inflight := filter (\<lambda>p. fst p \<noteq> i) (inflight w),
             results := results w @ [(i, Login, Threw (Api (handleError e)))]\<rparr>"
  using assms
  by (auto simp: deliver_found interceptor_def settle_def record_result_def unauthorized_def)

lemma login_invalid_response_unchanged:
  assumes "lookup i (inflight w) = Some (Login, cfg)"
    "\<not> truthy (access (resp_data r)) \<or> \<not> truthy (refresh (resp_data r))"
  shows "deliver i (Inr r) w =
           w\<lparr>inflight := filter (\<lambda>p. fst p \<noteq> i) (inflight w),
             results := results w @ [(i, Login, Threw (Plain ''Invalid token response''))]\<rparr>"
  using assms
  by (auto simp: deliver_found settle_def login_resume_def record_result_def)

subsection \<open>What a step adds to the log of results\<close>

lemma finish_results:
  "\<exists>new. results (finish a i x w) = results w @ new \<and> (\<forall>p \<in> set new. surfaced_by_handleError p)"
proof (cases a)
  case Crud
  then show ?thesis by (cases x) (auto simp: record_result_def)
next
  case Delete
  then show ?thesis by (cases x) (auto simp: record_result_def)
next
  case Login
  then show ?thesis
    by (cases x) (auto simp: record_result_def login_resume_def setAuthHeader_def split: option.splits)
next
  case Refresh
  then show ?thesis by simp
qed

lemma fold_resume_results:
  "\<exists>new. results (fold (interceptor_resume out) ws w) = results w @ new \<and>
         (\<forall>p \<in> set new. surfaced_by_handleError p)"
proof (induction ws arbitrary: w)
  case Nil
  show ?case by simp
next
  case (Cons p ws)
  obtain i a cfg where p: "p = (i, a, cfg)" by (cases p)
  let ?w1 = "interceptor_resume out p w"
  have "\<exists>new. results ?w1 = results w @ new \<and> (\<forall>p \<in> set new. surfaced_by_handleError p)"
  proof (cases out)
    case (Inl e)
    then show ?thesis using finish_results [of a i "Inl e" "logout w"] by (simp add: p)
  next
    case (Inr t)
    then show ?thesis by (simp add: p send_def)
  qed
  then obtain n1 where n1: "results ?w1 = results w @ n1" "\<forall>p \<in> set n1. surfaced_by_handleError p"
    by blast
  from Cons [of ?w1] obtain n2 where n2: "results (fold (interceptor_resume out) ws ?w1) = results ?w1 @ n2"
    "\<forall>p \<in> set n2. surfaced_by_handleError p"
    by blast
  have "results (fold (interceptor_resume out) (p # ws) w) = results w @ (n1 @ n2)"
    using n1 n2 by simp
  moreover have "\<forall>p \<in> set (n1 @ n2). surfaced_by_handleError p"
    using n1 n2 by auto
  ultimately show ?case by blast
qed

lemma settle_results:
  "\<exists>new. results (settle a i x w) = results w @ new \<and> (\<forall>p \<in> set new. surfaced_by_handleError p)"
proof (cases "a = Refresh")
  case False
  then show ?thesis using finish_results [of a i x w] by (simp add: settle_def)
next
  case True
  obtain w' out where eq: "doRefreshToken_resume x w = (w', out)"
    by (cases "doRefreshToken_resume x w")
  have "results w' = results w"
    using doRefreshToken_resume_fields(6) [of x w] by (simp add: eq)
  then show ?thesis
    using fold_resume_results [of out "waiting w'" "w'\<lparr>refreshing := False, waiting := []\<rparr>"] True
    by (simp add: settle_def refresh_settled_def eq)
qed

lemma step_results:
  "\<exists>new. results (step ev w) = results w @ new \<and> (\<forall>p \<in> set new. surfaced_by_handleError p)"
proof (cases ev)
  case (Call opn)
  then show ?thesis by (simp add: crud_def axios_call_def send_def split: prod.splits)
next
  case (CallLogin u p)
  then show ?thesis by (simp add: login_def axios_call_def send_def)
next
  case CallLogout
  then show ?thesis by simp
next
  case (Answer i x)
  show ?thesis
  proof (cases "lookup i (inflight w)")
    case None
    then show ?thesis using Answer by (simp add: deliver_missing)
  next
    case (Some ac)
    obtain a cfg where ac: "ac = (a, cfg)" by (cases ac)
    let ?w0 = "w\<lparr>inflight := filter (\<lambda>p. fst p \<noteq> i) (inflight w)\<rparr>"
    note d = deliver_found [OF Some [unfolded ac], of x]
    show ?thesis
    proof (cases x)
      case (Inr r)
      then show ?thesis using settle_results [of a i x ?w0] Answer d by simp
    next
      case (Inl e)
      let ?p = "(i, a, cfg\<lparr>retry := True\<rparr>)"
      have "\<exists>new. results (refreshAccessToken ?p ?w0) = results w @ new \<and>
          (\<forall>p \<in> set new. surfaced_by_handleError p)"
        using finish_results [of a i "Inl (Error ''No refresh token available'')" "logout ?w0"]
        by (simp add: refreshAccessToken_def doRefreshToken_def axios_call_def send_def)
      then show ?thesis
        using settle_results [of a i x ?w0] Answer d Inl
        by (cases "map_option resp_status (response e) \<noteq> Some 401 \<or> retry cfg")
          (simp_all add: interceptor_def Let_def)
    qed
  qed
qed

lemma run_results:
  "(\<forall>p \<in> set (results w). surfaced_by_handleError p) \<Longrightarrow>
   (\<forall>p \<in> set (results (run evs w)). surfaced_by_handleError p)"
proof (induction evs arbitrary: w)
  case Nil
  then show ?case by (simp add: run_def)
next
  case (Cons ev evs)
  from step_results [of ev w] obtain new where "results (step ev w) = results w @ new"
    "\<forall>p \<in> set new. surfaced_by_handleError p" by blast
  with Cons.prems have "\<forall>p \<in> set (results (step ev w)). surfaced_by_handleError p" by auto
  from Cons.IH [OF this] show ?case by (simp add: run_def)
qed

lemma crud_rejection_surfaced:
  assumes "lookup j (inflight w) = Some (Crud, cfg)" "\<not> unauthorized e \<or> retry cfg"
  shows "results (deliver j (Inl e) w) = results w @ [(j, Crud, Threw (Api (handleError e)))]"
  using assms
  by (auto simp: deliver_found interceptor_def settle_def record_result_def unauthorized_def)

lemma finish_results_id:
  "a \<noteq> Refresh \<Longrightarrow> \<exists>res. results (finish a i x w) = results w @ [(i, a, res)]"
  by (cases a; cases x)
    (auto simp: record_result_def login_resume_def setAuthHeader_def split: option.splits)

subsection \<open>A refresh call that is answered 401\<close>

lemma blocked_removed:
  "blocked n w \<Longrightarrow> blocked n (w\<lparr>inflight := filter P (inflight w)\<rparr>)"
  by (auto simp: blocked_def filter_empty_conv)

lemma blocked_call:
  assumes "blocked n w" "a \<noteq> Refresh"
  shows "blocked n (axios_call a m u b w)" "waiting (axios_call a m u b w) = waiting w"
  using assms by (auto simp: blocked_def axios_call_def send_def is_refresher_def)

lemma blocked_deliver:
  assumes b: "blocked n w"
  shows "blocked n (deliver i x w) \<and> (\<exists>ws. waiting (deliver i x w) = waiting w @ ws)"
proof (cases "lookup i (inflight w)")
  case None
  then show ?thesis using b by (simp add: deliver_missing)
next
  case (Some ac)
  obtain a cfg where ac: "ac = (a, cfg)" by (cases ac)
  with Some have look: "lookup i (inflight w) = Some (a, cfg)" by simp
  then have mem: "(i, a, cfg) \<in> set (inflight w)" by (rule lookup_Some_mem)
  from b mem have a: "a \<noteq> Refresh" and i: "\<not> i < n"
    by (auto simp: blocked_def filter_empty_conv is_refresher_def)
  define w0 where "w0 = w\<lparr>inflight := filter (\<lambda>p. fst p \<noteq> i) (inflight w)\<rparr>"
  have b0: "blocked n w0" unfolding w0_def using b by (rule blocked_removed)
  have w0: "waiting w0 = waiting w" by (simp add: w0_def)
  have fin: "blocked n (finish a i y w0) \<and> waiting (finish a i y w0) = waiting w" for y
  proof -
    from finish_results_id [OF a, of i y w0] obtain res
      where "results (finish a i y w0) = results w0 @ [(i, a, res)]" ..
    then show ?thesis using b0 i by (simp add: blocked_def w0)
  qed
  have park: "blocked n (refreshAccessToken p w0) \<and> waiting (refreshAccessToken p w0) = waiting w @ [p]"
    for p
    using b0 by (simp add: refreshAccessToken_def blocked_def w0)
  have d: "deliver i y w =
      (case y of Inr r \<Rightarrow> settle a i (Inr r) w0 | Inl error \<Rightarrow> interceptor i a cfg error w0)" for y
    unfolding w0_def by (simp add: deliver_found [OF look] Let_def)
  show ?thesis
  proof (cases x)
    case (Inr r)
    then show ?thesis using fin [of "Inr r"] a by (simp add: d settle_def)
  next
    case (Inl e)
    show ?thesis
    proof (cases "map_option resp_status (response e) \<noteq> Some 401 \<or> retry cfg")
      case True
      then show ?thesis using fin [of "Inl e"] a Inl by (simp add: d settle_def interceptor_def)
    next
      case False
      then show ?thesis using park [of "(i, a, cfg\<lparr>retry := True\<rparr>)"] Inl
        by (simp add: d interceptor_def)
    qed
  qed
qed

lemma blocked_step:
  assumes "blocked n w"
  shows "blocked n (step ev w) \<and> (\<exists>ws. waiting (step ev w) = waiting w @ ws)"
proof (cases ev)
  case (Call opn)
  then show ?thesis using blocked_call [OF assms, of "awaiter_of opn"]
    by (simp add: crud_def split: prod.splits)
next
  case (CallLogin u p)
  then show ?thesis using blocked_call [OF assms, of Login] by (simp add: login_def)
next
  case CallLogout
  then show ?thesis using assms by (simp add: blocked_def)
next
  case (Answer i x)
  then show ?thesis using blocked_deliver [OF assms] by simp
qed

lemma blocked_run:
  "blocked n w \<Longrightarrow> blocked n (run evs w) \<and> (\<exists>ws. waiting (run evs w) = waiting w @ ws)"
proof (induction evs arbitrary: w)
  case Nil
  then show ?case by (simp add: run_def)
next
  case (Cons ev evs)
  from blocked_step [OF Cons.prems] obtain ws1 where 1: "blocked n (step ev w)"
    "waiting (step ev w) = waiting w @ ws1" by blast
  from Cons.IH [OF 1(1)] obtain ws2 where 2: "blocked n (run evs (step ev w))"
    "waiting (run evs (step ev w)) = waiting (step ev w) @ ws2" by blast
  have "run (ev # evs) w = run evs (step ev w)" by (simp add: run_def)
  then show ?case using 1 2 by simp
qed

lemma rejected_refresh_fields:
  "accessToken rejected_refresh = Some ''T1''" "refreshToken rejected_refresh = Some ''R1''"
  "localStorage rejected_refresh ''accessToken'' = Some ''T1''"
  "localStorage rejected_refresh ''refreshToken'' = Some ''R1''"
  "defaultAuthorization rejected_refresh = Some ''Bearer T1''"
  "refreshing rejected_refresh" "inflight rejected_refresh = []" "results rejected_refresh = []"
  "map fst (waiting rejected_refresh) = [0, 1, 2, 3]" "next_id rejected_refresh = 4"
  by (simp_all add: rejected_refresh_def eval_defs)

subsection \<open>A refresh that fails with another error\<close>

lemma finish_error_tokens:
  "accessToken (finish a i (Inl e) (logout w)) = None \<and>
   refreshToken (finish a i (Inl e) (logout w)) = None \<and>
   localStorage (finish a i (Inl e) (logout w)) ''accessToken'' = None \<and>
   localStorage (finish a i (Inl e) (logout w)) ''refreshToken'' = None \<and>
   defaultAuthorization (finish a i (Inl e) (logout w)) = None"
  by (cases a) (simp_all add: record_result_def logout_def doRefreshToken_resume_def)

lemma logged_out_fold:
  assumes "accessToken w = None" "refreshToken w = None" "localStorage w ''accessToken'' = None"
    "localStorage w ''refreshToken'' = None" "defaultAuthorization w = None"
  shows "accessToken (fold (interceptor_resume (Inl e)) ws w) = None \<and>
         refreshToken (fold (interceptor_resume (Inl e)) ws w) = None \<and>
         localStorage (fold (interceptor_resume (Inl e)) ws w) ''accessToken'' = None \<and>
         localStorage (fold (interceptor_resume (Inl e)) ws w) ''refreshToken'' = None \<and>
         defaultAuthorization (fold (interceptor_resume (Inl e)) ws w) = None"
  using assms
proof (induction ws arbitrary: w)
  case Nil
  then show ?case by simp
next
  case (Cons p ws)
  obtain i a cfg where p: "p = (i, a, cfg)" by (cases p)
  show ?case
    using Cons.IH [of "finish a i (Inl e) (logout w)"] finish_error_tokens [of a i e w]
    by (simp add: p)
qed

lemma refresh_failure_ends_session:
  assumes look: "lookup k (inflight w) = Some (Refresh, rc)"
    and e: "\<not> unauthorized e"
    and ws: "\<forall>p \<in> set (waiting w). \<not> is_refresher p"
  shows "accessToken (step (Answer k (Inl e)) w) = None \<and>
         refreshToken (step (Answer k (Inl e)) w) = None \<and>
         localStorage (step (Answer k (Inl e)) w) ''accessToken'' = None \<and>
         localStorage (step (Answer k (Inl e)) w) ''refreshToken'' = None \<and>
         defaultAuthorization (step (Answer k (Inl e)) w) = None \<and>
         waiting (step (Answer k (Inl e)) w) = [] \<and> \<not> refreshing (step (Answer k (Inl e)) w) \<and>
         sent (step (Answer k (Inl e)) w) = sent w \<and>
         results (step (Answer k (Inl e)) w) =
           results w @ map (\<lambda>p. (fst p, fst (snd p), Threw (Api (handleError e)))) (waiting w)"
proof -
  define w0 where "w0 = w\<lparr>inflight := filter (\<lambda>p. fst p \<noteq> k) (inflight w)\<rparr>"
  have pass: "passes_interceptor (Inl e)" using e by (simp add: passes_interceptor_def)
  have d: "deliver k (Inl e) w = refresh_settled (Inl e) w0"
    unfolding w0_def by (rule deliver_refresh [OF look pass])
  have eq: "doRefreshToken_resume (Inl e) w0 = (logout w0, Inl e)"
    by (simp add: doRefreshToken_resume_def)
  define w1 where "w1 = (logout w0)\<lparr>refreshing := False, waiting := []\<rparr>"
  have s: "refresh_settled (Inl e) w0 = fold (interceptor_resume (Inl e)) (waiting w) w1"
    using refresh_settled_error [OF eq] by (simp add: w0_def w1_def)
  have out: "accessToken w1 = None" "refreshToken w1 = None" "localStorage w1 ''accessToken'' = None"
    "localStorage w1 ''refreshToken'' = None" "defaultAuthorization w1 = None"
    by (simp_all add: w1_def logout_def)
  have f: "waiting w1 = []" "\<not> refreshing w1" "sent w1 = sent w" "results w1 = results w"
    by (simp_all add: w1_def w0_def)
  show ?thesis
    using logged_out_fold [OF out, of e "waiting w"] fold_resume_error_results [OF ws, of e w1]
    by (simp add: d s f)
qed

subsection \<open>Unauthorized answers without a refresh token\<close>

lemma finish_error_result:
  "a \<noteq> Refresh \<Longrightarrow>
   finish a i (Inl e) w = record_result i a (Threw (Api (handleError e))) w"
  by (cases a) simp_all

lemma fail_fast_result:
  assumes "lookup i (inflight w) = Some (a, cfg)" "a \<noteq> Refresh" "\<not> retry cfg" "unauthorized e"
    "\<not> refreshing w" "\<not> truthy (refreshToken w)"
  shows "deliver i (Inl e) w =
           record_result i a (Threw (Api (handleError (Error ''No refresh token available''))))
             (logout (w\<lparr>inflight := filter (\<lambda>p. fst p \<noteq> i) (inflight w)\<rparr>))"
  using fail_fast_one [OF assms(1,3,4,5,6)] assms(2) by (simp add: finish_error_result)

lemma fail_fast_batch:
  assumes "\<not> refreshing w" "\<not> truthy (refreshToken w)" "distinct ids"
    "\<forall>i \<in> set ids. fresh_request w i" "\<forall>i \<in> set ids. unauthorized (err i)"
  shows "sent (run (answers ids err) w) = sent w \<and>
         waiting (run (answers ids err) w) = waiting w \<and>
         \<not> refreshing (run (answers ids err) w) \<and>
         inflight (run (answers ids err) w) = filter (\<lambda>p. fst p \<notin> set ids) (inflight w) \<and>
         map (\<lambda>p. (fst p, snd (snd p))) (results (run (answers ids err) w)) =
           map (\<lambda>p. (fst p, snd (snd p))) (results w) @
           map (\<lambda>i. (i, Threw (Api (handleError (Error ''No refresh token available''))))) ids"
  using assms
proof (induction ids arbitrary: w)
  case Nil
  then show ?case by (simp add: run_def answers_def)
next
  case (Cons i ids)
  from Cons.prems obtain a cfg where look: "lookup i (inflight w) = Some (a, cfg)"
    and a: "a \<noteq> Refresh" and nr: "\<not> retry cfg"
    by (auto simp: fresh_request_def split: option.splits)
  define w1 where "w1 = deliver i (Inl (err i)) w"
  have w1: "w1 = record_result i a (Threw (Api (handleError (Error ''No refresh token available''))))
      (logout (w\<lparr>inflight := filter (\<lambda>p. fst p \<noteq> i) (inflight w)\<rparr>))"
    unfolding w1_def using look a nr Cons.prems by (intro fail_fast_result) simp_all
  have f1: "sent w1 = sent w" "waiting w1 = waiting w" "\<not> refreshing w1"
    "\<not> truthy (refreshToken w1)" "inflight w1 = filter (\<lambda>p. fst p \<noteq> i) (inflight w)"
    "results w1 = results w @ [(i, a, Threw (Api (handleError (Error ''No refresh token available''))))]"
    using Cons.prems(1) by (simp_all add: w1 record_result_def logout_def truthy_def)
  have other: "lookup j (inflight w1) = lookup j (inflight w)" if "j \<in> set ids" for j
  proof -
    from that Cons.prems(3) have "j \<noteq> i" by auto
    then show ?thesis by (simp add: f1 lookup_filter_other)
  qed
  have fr: "\<forall>j \<in> set ids. fresh_request w1 j"
    using Cons.prems(4) other by (simp add: fresh_request_def)
  have run: "run (answers (i # ids) err) w = run (answers ids err) w1"
    by (simp add: run_def answers_def w1_def)
  have flt: "filter (\<lambda>p. fst p \<notin> set ids) (filter (\<lambda>p. fst p \<noteq> i) (inflight w)) =
      filter (\<lambda>p. fst p \<notin> set (i # ids)) (inflight w)"
    by (simp add: conj_commute)
  from Cons.IH [OF f1(3,4) _ fr] Cons.prems(3,5)
  show ?case unfolding run by (simp add: f1 flt del: filter_filter)
qed

lemma deliver_parks:
  assumes "lookup i (inflight w) = Some (a, cfg)" "\<not> retry cfg" "unauthorized e"
    "refreshing w \<or> truthy (refreshToken w)"
  shows "results (deliver i (Inl e) w) = results w \<and>
         waiting (deliver i (Inl e) w) = waiting w @ [(i, a, cfg\<lparr>retry := True\<rparr>)] \<and>
         sent (deliver i (Inl e) w) = sent w @ (if refreshing w then [] else [refresh_request w]) \<and>
         refreshing (deliver i (Inl e) w)"
proof (cases "refreshing w")
  case True
  then show ?thesis using park_one [OF assms(1,2,3)] by simp
next
  case False
  with assms(4) have "truthy (refreshToken w)" by simp
  from lead_one [OF assms(1,2,3) False this] False show ?thesis by simp
qed

lemma refresh_no_access_results:
  assumes look: "lookup k (inflight w) = Some (Refresh, rc)"
    and r: "\<not> truthy (access (resp_data r))"
    and ws: "\<forall>p \<in> set (waiting w). \<not> is_refresher p"
  shows "results (deliver k (Inr r) w) =
           results w @ map (\<lambda>p. (fst p, fst (snd p),
             Threw (Api (handleError (Error ''No access token received''))))) (waiting w) \<and>
         sent (deliver k (Inr r) w) = sent w \<and> waiting (deliver k (Inr r) w) = []"
proof -
  define w0 where "w0 = w\<lparr>inflight := filter (\<lambda>p. fst p \<noteq> k) (inflight w)\<rparr>"
  have d: "deliver k (Inr r) w = refresh_settled (Inr r) w0"
    unfolding w0_def by (simp add: deliver_found [OF look] settle_def)
  have eq: "doRefreshToken_resume (Inr r) w0 = (logout w0, Inl (Error ''No access token received''))"
    using r by (simp add: doRefreshToken_resume_def truthy_def split: option.splits)
  define w1 where "w1 = (logout w0)\<lparr>refreshing := False, waiting := []\<rparr>"
  have s: "refresh_settled (Inr r) w0 =
      fold (interceptor_resume (Inl (Error ''No access token received''))) (waiting w) w1"
    using refresh_settled_error [OF eq] by (simp add: w0_def w1_def)
  have f: "waiting w1 = []" "sent w1 = sent w" "results w1 = results w"
    by (simp_all add: w1_def w0_def)
  show ?thesis
    using fold_resume_error_results [OF ws, of "Error ''No access token received''" w1]
    by (simp add: d s f)
qed

section \<open>The claims\<close>






text \<open>
  Claim C3 (fan-out). When the refresh call is answered with a response that carries an
  access token, every request parked behind the refresh is dispatched again exactly once:
  the log of dispatches grows by one entry for each parked request, in the order in which
  they were parked, and each entry is the parked request with its Authorization header set
  to the new token. Nothing stays parked. In a state the service reaches, the parked requests
  belong to different calls, so that no call is dispatched twice.
\<close>

theorem fan_out:
  assumes "lookup k (inflight w) = Some (Refresh, rc)"
    and "access (resp_data r) = Some t" and "t \<noteq> []"
  shows "waiting (step (Answer k (Inr r)) w) = [] \<and>
         sent (step (Answer k (Inr r)) w) =
           sent w @ map (\<lambda>p. (snd (snd p))\<lparr>Authorization := Some (Bearer t)\<rparr>) (waiting w) \<and>
         inflight (step (Answer k (Inr r)) w) =
           filter (\<lambda>p. fst p \<noteq> k) (inflight w) @ map (stamp t) (waiting w) \<and>
         (w = run evs (constructor storage) \<longrightarrow> distinct (map fst (waiting w)))"
proof -
  have "distinct (map fst (waiting (run evs (constructor storage))))"
    using tidy_reached [of evs storage] by (simp add: tidy_def)
  then show ?thesis
    by (simp add: refresh_success [OF assms] stamp_def)
qed

theorem fan_out_witness:
  "map (\<lambda>p. (fst p, Authorization (snd (snd p))))
     (inflight (step (Answer 3 (Inr (token_response (Some ''T2'') None))) expired_session))
   = [(0, Some ''Bearer T2''), (1, Some ''Bearer T2''), (2, Some ''Bearer T2'')]"
proof -
  have "access (resp_data (token_response (Some ''T2'') None)) = Some ''T2''"
    by (simp add: token_response_def)
  from fan_out [OF expired_session_refresh this] show ?thesis
    by (simp add: eval_defs)
qed

text \<open>
  Claim C4 (a failed refresh ends the session) fails on the code when the refresh token is
  rejected with status 401. The interceptor takes the 401 of the refresh call itself, finds
  \<^verbatim>\<open>refreshing\<close> set, and awaits that promise, which is the promise of the
  \<^verbatim>\<open>doRefreshToken\<close> that awaits this very call. In the scenario of the specification,
  after that answer both tokens are still in memory and in storage, the header is still set,
  no call has ended, and the three requests and the refresh call wait. Whatever happens
  afterwards, they still wait, none of the three calls ends, and \<^verbatim>\<open>refreshing\<close> stays
  set.
\<close>

theorem refresh_rejected_401_deadlock:
  "accessToken rejected_refresh = Some ''T1'' \<and> refreshToken rejected_refresh = Some ''R1'' \<and>
   localStorage rejected_refresh ''accessToken'' = Some ''T1'' \<and>
   localStorage rejected_refresh ''refreshToken'' = Some ''R1'' \<and>
   defaultAuthorization rejected_refresh = Some ''Bearer T1'' \<and>
   refreshing rejected_refresh \<and> inflight rejected_refresh = [] \<and> results rejected_refresh = [] \<and>
   map fst (waiting rejected_refresh) = [0, 1, 2, 3] \<and>
   (\<forall>evs. map fst (take 4 (waiting (run evs rejected_refresh))) = [0, 1, 2, 3] \<and>
          filter (\<lambda>p. fst p < 4) (results (run evs rejected_refresh)) = [] \<and>
          refreshing (run evs rejected_refresh))"
proof -
  have b: "blocked 4 rejected_refresh"
    by (simp add: blocked_def rejected_refresh_fields)
  have "map fst (take 4 (waiting (run evs rejected_refresh))) = [0, 1, 2, 3] \<and>
          filter (\<lambda>p. fst p < 4) (results (run evs rejected_refresh)) = [] \<and>
          refreshing (run evs rejected_refresh)" for evs
  proof -
    from blocked_run [OF b, of evs] obtain ws where bl: "blocked 4 (run evs rejected_refresh)"
      and ws: "waiting (run evs rejected_refresh) = waiting rejected_refresh @ ws" by blast
    have "length (map fst (waiting rejected_refresh)) = 4"
      by (simp add: rejected_refresh_fields(9))
    then have "length (waiting rejected_refresh) = 4" by simp
    then show ?thesis using bl rejected_refresh_fields(9) by (simp add: ws blocked_def)
  qed
  then show ?thesis by (simp add: rejected_refresh_fields)
qed

text \<open>
  Claim C5 (requests without a session), as the code has it. No method looks at the session
  before its call: in every state, and so in a state with no token in memory, a CRUD, delete
  or simulation method dispatches its request at once, with the Authorization header that
  the defaults of axios hold at that moment. What fails fast is the refresh alone: in every
  state, when a request of a public method that has not been retried is answered 401 while
  no refresh is under way and no refresh token is in memory, nothing is dispatched, nothing
  is parked, and the call throws the \<^verbatim>\<open>APIError\<close> of \<^verbatim>\<open>No refresh token available\<close>,
  with status 500.
\<close>

theorem unauthenticated_request_is_sent:
  "(request_of opn = (m, u, b) \<longrightarrow>
      sent (step (Call opn) w) =
        sent w @ [\<lparr>verb = m, url = u, body = b,
                   Authorization = defaultAuthorization w, retry = False\<rparr>] \<and>
      inflight (step (Call opn) w) =
        inflight w @ [(next_id w, awaiter_of opn,
                       \<lparr>verb = m, url = u, body = b,
                        Authorization = defaultAuthorization w, retry = False\<rparr>)]) \<and>
   (lookup j (inflight v) = Some (a, cfg) \<and> a \<noteq> Refresh \<and> \<not> retry cfg \<and> unauthorized e \<and>
    \<not> refreshing v \<and> \<not> truthy (refreshToken v) \<longrightarrow>
      sent (step (Answer j (Inl e)) v) = sent v \<and>
      waiting (step (Answer j (Inl e)) v) = waiting v \<and>
      \<not> refreshing (step (Answer j (Inl e)) v) \<and>
      results (step (Answer j (Inl e)) v) =
        results v @ [(j, a, Threw (Api \<lparr>message = ''No refresh token available'', status = 500,
                                         details = None\<rparr>))])"
proof -
  have "sent (deliver j (Inl e) v) = sent v \<and>
      waiting (deliver j (Inl e) v) = waiting v \<and>
      \<not> refreshing (deliver j (Inl e) v) \<and>
      results (deliver j (Inl e) v) =
        results v @ [(j, a, Threw (Api \<lparr>message = ''No refresh token available'', status = 500,
                                         details = None\<rparr>))]"
    if "lookup j (inflight v) = Some (a, cfg)" "a \<noteq> Refresh" "\<not> retry cfg" "unauthorized e"
      "\<not> refreshing v" "\<not> truthy (refreshToken v)"
    using that(5) by (simp add: fail_fast_result [OF that] record_result_def handleError_Error)
  then show ?thesis
    by (simp add: crud_def axios_call_def send_def)
qed

theorem unauthenticated_request_is_sent_witness:
  "sent (run [Call getNodes, Answer 0 (Inl (rejection 401))] (constructor Map.empty)) =
     [\<lparr>verb = GET, url = ''nodes/'', body = NoBody, Authorization = None, retry = False\<rparr>] \<and>
   results (run [Call getNodes, Answer 0 (Inl (rejection 401))] (constructor Map.empty)) =
     [(0, Crud, Threw (Api \<lparr>message = ''No refresh token available'', status = 500, details = None\<rparr>))]"
proof -
  let ?cfg = "\<lparr>verb = GET, url = ''nodes/'', body = NoBody, Authorization = None, retry = False\<rparr>"
  let ?w = "constructor Map.empty"
  let ?v = "step (Call getNodes) ?w"
  have 1: "sent ?w = []" "inflight ?w = []" "next_id ?w = 0" "defaultAuthorization ?w = None"
    "results ?w = []" "refreshToken ?w = None" "\<not> refreshing ?w"
    by (simp_all add: constructor_def)
  have 2: "request_of getNodes = (GET, ''nodes/'', NoBody)" by simp
  have 3: "unauthorized (rejection 401)" by (simp add: unauthorized_def rejection_def)
  have s: "sent ?v = [?cfg]" "inflight ?v = [(0, Crud, ?cfg)]"
    using unauthenticated_request_is_sent [of getNodes GET "''nodes/''" NoBody ?w] 2
    by (simp_all add: 1)
  have v: "lookup 0 (inflight ?v) = Some (Crud, ?cfg)" "\<not> refreshing ?v"
    "\<not> truthy (refreshToken ?v)" "results ?v = []"
    by (simp_all add: s lookup_def) (simp_all add: crud_def axios_call_def send_def 1 truthy_def)
  from unauthenticated_request_is_sent [of getNodes GET "''nodes/''" NoBody ?w 0 ?v Crud ?cfg "rejection 401"]
    v 3 s
  show ?thesis by (simp add: run_def)
qed

text \<open>
  The claim as the specification states it fails: on a page with empty storage,
  \<^verbatim>\<open>getNodes\<close> puts a request on the network.
\<close>

theorem unauthenticated_request_reaches_network:
  "accessToken (constructor Map.empty) = None \<and> refreshToken (constructor Map.empty) = None \<and>
   sent (step (Call getNodes) (constructor Map.empty)) =
     [\<lparr>verb = GET, url = ''nodes/'', body = NoBody, Authorization = None, retry = False\<rparr>]"
  by (simp add: eval_defs)

text \<open>
  Claim C6 (rotation of the refresh token), as the code has it. A successful refresh
  replaces the access token in memory, in storage and in the default header, and leaves the
  refresh token as it was, in memory and in storage, whatever \<^verbatim>\<open>response.data.refresh\<close>
  holds: \<^verbatim>\<open>doRefreshToken\<close> never reads it.
\<close>

theorem refresh_keeps_refresh_token:
  assumes "lookup k (inflight w) = Some (Refresh, rc)"
    and "access (resp_data r) = Some t" and "t \<noteq> []"
  shows "refreshToken (step (Answer k (Inr r)) w) = refreshToken w \<and>
         localStorage (step (Answer k (Inr r)) w) ''refreshToken'' = localStorage w ''refreshToken'' \<and>
         accessToken (step (Answer k (Inr r)) w) = Some t \<and>
         localStorage (step (Answer k (Inr r)) w) ''accessToken'' = Some t \<and>
         defaultAuthorization (step (Answer k (Inr r)) w) = Some (Bearer t)"
  by (simp add: refresh_success [OF assms])

theorem refresh_keeps_refresh_token_witness:
  "refreshToken (step (Answer 3 (Inr (token_response (Some ''T2'') (Some ''R2'')))) expired_session)
     = refreshToken expired_session \<and>
   accessToken (step (Answer 3 (Inr (token_response (Some ''T2'') (Some ''R2'')))) expired_session)
     = Some ''T2''"
proof -
  have "access (resp_data (token_response (Some ''T2'') (Some ''R2''))) = Some ''T2''"
    by (simp add: token_response_def)
  from refresh_keeps_refresh_token [OF expired_session_refresh this] show ?thesis
    by simp
qed

text \<open>
  The claim as the specification states it fails: the response of the refresh call carries
  the new refresh token \<^verbatim>\<open>R2\<close>, and the stored one is still \<^verbatim>\<open>R1\<close>.
\<close>

theorem rotation_ignored:
  "refreshToken (step (Answer 3 (Inr (token_response (Some ''T2'') (Some ''R2'')))) expired_session)
     \<noteq> Some ''R2'' \<and>
   localStorage (step (Answer 3 (Inr (token_response (Some ''T2'') (Some ''R2'')))) expired_session)
     ''refreshToken'' \<noteq> Some ''R2''"
  by (simp add: eval_defs)

text \<open>
  Claim C7 (persistence round trip). When \<^verbatim>\<open>login\<close> receives a response with both tokens,
  it stores the pair; a constructor run on the storage it leaves has the same pair in memory
  and the header of the access token. A constructor run on the storage that \<^verbatim>\<open>logout\<close>
  leaves, from any state, has no token and no header.
\<close>

theorem persistence_round_trip:
  assumes "lookup i (inflight w) = Some (Login, cfg)"
    and "access (resp_data r) = Some acc" and "refresh (resp_data r) = Some rfr"
    and "acc \<noteq> []" and "rfr \<noteq> []"
  shows "accessToken (step (Answer i (Inr r)) w) = Some acc \<and>
         refreshToken (step (Answer i (Inr r)) w) = Some rfr \<and>
         accessToken (constructor (localStorage (step (Answer i (Inr r)) w))) = Some acc \<and>
         refreshToken (constructor (localStorage (step (Answer i (Inr r)) w))) = Some rfr \<and>
         defaultAuthorization (constructor (localStorage (step (Answer i (Inr r)) w))) = Some (Bearer acc) \<and>
         accessToken (constructor (localStorage (step CallLogout v))) = None \<and>
         refreshToken (constructor (localStorage (step CallLogout v))) = None \<and>
         defaultAuthorization (constructor (localStorage (step CallLogout v))) = None"
  using assms
  by (simp add: deliver_found settle_def login_resume_def truthy_def record_result_def
      setAuthHeader_def constructor_def logout_def)

theorem persistence_round_trip_witness:
  "accessToken (constructor (localStorage
     (run [CallLogin ''user'' ''secret'', Answer 0 (Inr (token_response (Some ''T1'') (Some ''R1'')))]
        (constructor Map.empty)))) = Some ''T1'' \<and>
   refreshToken (constructor (localStorage
     (run [CallLogin ''user'' ''secret'', Answer 0 (Inr (token_response (Some ''T1'') (Some ''R1'')))]
        (constructor Map.empty)))) = Some ''R1'' \<and>
   accessToken (constructor (localStorage (step CallLogout three_requests))) = None"
proof -
  let ?w = "run [CallLogin ''user'' ''secret''] (constructor Map.empty)"
  let ?r = "token_response (Some ''T1'') (Some ''R1'')"
  have l: "lookup 0 (inflight ?w) = Some (Login,
      \<lparr>verb = POST, url = ''token/'', body = Credentials ''user'' ''secret'',
       Authorization = None, retry = False\<rparr>)"
    by (simp add: eval_defs)
  have a: "access (resp_data ?r) = Some ''T1''" and b: "refresh (resp_data ?r) = Some ''R1''"
    by (simp_all add: token_response_def)
  from persistence_round_trip [OF l a b, of three_requests] show ?thesis
    by (simp add: run_def)
qed

text \<open>
  Claim C8 (logout while a refresh is on the network), as the code has it. Let \<^verbatim>\<open>logout\<close>
  be called while the refresh call is on the network, and let that call be answered with an
  access token later, after any events at all. Then \<^verbatim>\<open>doRefreshToken\<close> stores that
  token in memory, in storage and in the default header, as it does without a logout, and
  leaves the refresh token, in memory and in storage, as it is when the answer comes. When
  the answer follows the logout with nothing in between, that is: cleared.
\<close>

theorem logout_during_refresh:
  assumes "lookup k (inflight w) = Some (Refresh, rc)"
    and "v = run evs (step CallLogout w)"
    and "lookup k (inflight v) = Some (Refresh, rc')"
    and "access (resp_data r) = Some t" and "t \<noteq> []"
  shows "accessToken (step (Answer k (Inr r)) v) = Some t \<and>
         localStorage (step (Answer k (Inr r)) v) ''accessToken'' = Some t \<and>
         defaultAuthorization (step (Answer k (Inr r)) v) = Some (Bearer t) \<and>
         refreshToken (step (Answer k (Inr r)) v) = refreshToken v \<and>
         localStorage (step (Answer k (Inr r)) v) ''refreshToken'' = localStorage v ''refreshToken'' \<and>
         (evs = [] \<longrightarrow>
            refreshToken (step (Answer k (Inr r)) v) = None \<and>
            localStorage (step (Answer k (Inr r)) v) ''refreshToken'' = None)"
proof -
  have "evs = [] \<Longrightarrow> refreshToken v = None \<and> localStorage v ''refreshToken'' = None"
    using assms(2) by (simp add: run_def logout_def)
  then show ?thesis
    by (auto simp: refresh_success [OF assms(3,4,5)])
qed

theorem logout_during_refresh_witness:
  "accessToken (run [CallLogout, Answer 3 (Inr (token_response (Some ''T2'') None))] expired_session)
     = Some ''T2'' \<and>
   refreshToken (run [CallLogout, Answer 3 (Inr (token_response (Some ''T2'') None))] expired_session)
     = None \<and>
   accessToken (run [CallLogout, CallLogin ''user'' ''secret'',
                     Answer 4 (Inr (token_response (Some ''T3'') (Some ''R3''))),
                     Answer 3 (Inr (token_response (Some ''T2'') None))] expired_session)
     = Some ''T2'' \<and>
   refreshToken (run [CallLogout, CallLogin ''user'' ''secret'',
                      Answer 4 (Inr (token_response (Some ''T3'') (Some ''R3''))),
                      Answer 3 (Inr (token_response (Some ''T2'') None))] expired_session)
     = Some ''R3''"
proof -
  let ?r = "token_response (Some ''T2'') None"
  let ?evs = "[CallLogin ''user'' ''secret'', Answer 4 (Inr (token_response (Some ''T3'') (Some ''R3'')))]"
  let ?v = "run ?evs (step CallLogout expired_session)"
  have a: "access (resp_data ?r) = Some ''T2''"
    by (simp add: token_response_def)
  have v0: "lookup 3 (inflight (run [] (step CallLogout expired_session))) =
      Some (Refresh, refresh_request three_requests)"
    using expired_session_refresh by (simp add: run_def)
  have v: "lookup 3 (inflight ?v) = Some (Refresh, refresh_request three_requests)"
    "refreshToken ?v = Some ''R3''"
    by (simp_all add: eval_defs)
  from logout_during_refresh [OF expired_session_refresh refl v0 a]
    logout_during_refresh [OF expired_session_refresh refl v(1) a] v(2)
  show ?thesis by (simp add: run_def logout_def)
qed

text \<open>
  The claim as the specification states it fails: after the logout and the answer to the
  refresh call, the access token is back in memory, in storage and in the header.
\<close>

theorem logout_does_not_win:
  "\<not> (accessToken (run [CallLogout, Answer 3 (Inr (token_response (Some ''T2'') None))] expired_session) = None \<and>
      localStorage (run [CallLogout, Answer 3 (Inr (token_response (Some ''T2'') None))] expired_session)
        ''accessToken'' = None \<and>
      defaultAuthorization (run [CallLogout, Answer 3 (Inr (token_response (Some ''T2'') None))] expired_session)
        = None)"
  by (simp add: eval_defs)

text \<open>
  Claim C9 (errors of the CRUD, delete and simulation methods), as the code has it. What such
  a method throws is the \<^verbatim>\<open>APIError\<close> that \<open>handleError\<close> makes of the error with which
  the axios call rejects, the response interceptor included; it is not always made of the
  answer to the request of the method. For a request of such a method that is on the
  network:
  \<^item> an error that is not a 401 response, or any error for a request that has been retried,
    makes the call throw \<open>handleError\<close> of that very error;
  \<^item> a 401 for a request that has not been retried, with no refresh under way and no
    refresh token in memory, makes the call throw the \<^verbatim>\<open>APIError\<close> of
    \<^verbatim>\<open>No refresh token available\<close> with status 500, although the response has status 401;
  \<^item> a 401 for a request that has not been retried, with a refresh under way or a refresh
    token in memory, does not end the call: the request is parked with the \<^verbatim>\<open>_retry\<close> flag.
  For the requests that are parked in a state the service reaches:
  \<^item> when the refresh call is answered with an error that is not a 401 response, every call
    throws \<open>handleError\<close> of that error of the refresh call;
  \<^item> when it is answered with a response without an access token, every call throws the
    \<^verbatim>\<open>APIError\<close> of \<^verbatim>\<open>No access token received\<close> with status 500;
  \<^item> when it is answered with an access token, no call ends: every request is on the network
    again with the \<^verbatim>\<open>_retry\<close> flag, so that the first item holds of the answer to it.
  In every state the service reaches, a call of such a method that has thrown has thrown an
  \<^verbatim>\<open>APIError\<close> that \<open>handleError\<close> made of some error: never the error itself. The
  \<^verbatim>\<open>APIError\<close> has the message of the error and the data of its response; its status is
  500 when the error has no response, and the status of the response otherwise (a status 0
  is falsy in \<^verbatim>\<open>status || 500\<close> and gives 500; no HTTP response has it).
\<close>

theorem crud_failure_is_api_error:
  assumes "lookup j (inflight w) = Some (a, cfg)" and "a = Crud \<or> a = Delete"
    and "v = run evs (constructor storage)" and "lookup k (inflight v) = Some (Refresh, rc)"
  shows "(\<not> unauthorized e \<or> retry cfg \<longrightarrow>
            results (step (Answer j (Inl e)) w) = results w @ [(j, a, Threw (Api (handleError e)))] \<and>
            sent (step (Answer j (Inl e)) w) = sent w \<and>
            waiting (step (Answer j (Inl e)) w) = waiting w) \<and>
         (unauthorized e \<and> \<not> retry cfg \<and> \<not> refreshing w \<and> \<not> truthy (refreshToken w) \<longrightarrow>
            results (step (Answer j (Inl e)) w) =
              results w @ [(j, a, Threw (Api \<lparr>message = ''No refresh token available'',
                                               status = 500, details = None\<rparr>))] \<and>
            sent (step (Answer j (Inl e)) w) = sent w \<and>
            waiting (step (Answer j (Inl e)) w) = waiting w) \<and>
         (unauthorized e \<and> \<not> retry cfg \<and> (refreshing w \<or> truthy (refreshToken w)) \<longrightarrow>
            results (step (Answer j (Inl e)) w) = results w \<and>
            waiting (step (Answer j (Inl e)) w) = waiting w @ [(j, a, cfg\<lparr>retry := True\<rparr>)] \<and>
            sent (step (Answer j (Inl e)) w) =
              sent w @ (if refreshing w then [] else [refresh_request w])) \<and>
         (\<not> unauthorized e' \<longrightarrow>
            results (step (Answer k (Inl e')) v) =
              results v @ map (\<lambda>p. (fst p, fst (snd p), Threw (Api (handleError e')))) (waiting v) \<and>
            sent (step (Answer k (Inl e')) v) = sent v) \<and>
         (\<not> truthy (access (resp_data r)) \<longrightarrow>
            results (step (Answer k (Inr r)) v) =
              results v @ map (\<lambda>p. (fst p, fst (snd p),
                Threw (Api \<lparr>message = ''No access token received'', status = 500,
                            details = None\<rparr>))) (waiting v) \<and>
            sent (step (Answer k (Inr r)) v) = sent v) \<and>
         (access (resp_data r) = Some t \<and> t \<noteq> [] \<longrightarrow>
            results (step (Answer k (Inr r)) v) = results v \<and>
            inflight (step (Answer k (Inr r)) v) =
              filter (\<lambda>p. fst p \<noteq> k) (inflight v) @ map (stamp t) (waiting v) \<and>
            (\<forall>p \<in> set (map (stamp t) (waiting v)). retry (snd (snd p)))) \<and>
         (\<forall>i b f. (i, b, Threw f) \<in> set (results (run evs' (constructor storage'))) \<and>
                  (b = Crud \<or> b = Delete) \<longrightarrow>
            (\<exists>error. f = Api (handleError error))) \<and>
         message (handleError e) = err_message e \<and>
         details (handleError e) = map_option resp_data (response e) \<and>
         (response e = None \<longrightarrow> status (handleError e) = 500) \<and>
         (\<forall>x. response e = Some x \<and> resp_status x \<noteq> 0 \<longrightarrow> status (handleError e) = resp_status x)"
proof -
  from assms(2) have a: "a \<noteq> Refresh" by auto
  have wf: "wellformed v" unfolding assms(3) by (rule wellformed_reached)
  have ws: "\<forall>p \<in> set (waiting v). \<not> is_refresher p"
    using wf assms(4) by (rule no_refresher_waits)
  have flagged: "\<forall>p \<in> set (waiting v). retry (snd (snd p))"
    using tidy_reached [of evs storage] by (simp add: tidy_def assms(3))
  have 1: "results (deliver j (Inl e) w) = results w @ [(j, a, Threw (Api (handleError e)))] \<and>
      sent (deliver j (Inl e) w) = sent w \<and> waiting (deliver j (Inl e) w) = waiting w"
    if "\<not> unauthorized e \<or> retry cfg"
    using that a
    by (auto simp: deliver_found [OF assms(1)] interceptor_def settle_def unauthorized_def
        finish_error_result record_result_def)
  have 2: "results (deliver j (Inl e) w) =
        results w @ [(j, a, Threw (Api \<lparr>message = ''No refresh token available'',
                                         status = 500, details = None\<rparr>))] \<and>
      sent (deliver j (Inl e) w) = sent w \<and> waiting (deliver j (Inl e) w) = waiting w"
    if "unauthorized e" "\<not> retry cfg" "\<not> refreshing w" "\<not> truthy (refreshToken w)"
    by (simp add: fail_fast_result [OF assms(1) a that(2,1,3,4)] record_result_def handleError_Error)
  have 3: "results (deliver j (Inl e) w) = results w \<and>
      waiting (deliver j (Inl e) w) = waiting w @ [(j, a, cfg\<lparr>retry := True\<rparr>)] \<and>
      sent (deliver j (Inl e) w) = sent w @ (if refreshing w then [] else [refresh_request w])"
    if "unauthorized e" "\<not> retry cfg" "refreshing w \<or> truthy (refreshToken w)"
    using deliver_parks [OF assms(1) that(2,1,3)] by simp
  have 4: "results (deliver k (Inl e') v) =
        results v @ map (\<lambda>p. (fst p, fst (snd p), Threw (Api (handleError e')))) (waiting v) \<and>
      sent (deliver k (Inl e') v) = sent v"
    if "\<not> unauthorized e'"
    using refresh_failure_ends_session [OF assms(4) that ws] by simp
  have 5: "results (deliver k (Inr r) v) =
        results v @ map (\<lambda>p. (fst p, fst (snd p),
          Threw (Api \<lparr>message = ''No access token received'', status = 500,
                      details = None\<rparr>))) (waiting v) \<and>
      sent (deliver k (Inr r) v) = sent v"
    if "\<not> truthy (access (resp_data r))"
    using refresh_no_access_results [OF assms(4) that ws] by (simp add: handleError_Error)
  have 6: "results (deliver k (Inr r) v) = results v \<and>
      inflight (deliver k (Inr r) v) =
        filter (\<lambda>p. fst p \<noteq> k) (inflight v) @ map (stamp t) (waiting v) \<and>
      (\<forall>p \<in> set (map (stamp t) (waiting v)). retry (snd (snd p)))"
    if "access (resp_data r) = Some t" "t \<noteq> []"
    using flagged by (simp add: refresh_success [OF assms(4) that] stamp_def)
  have "\<forall>p \<in> set (results (run evs' (constructor storage'))). surfaced_by_handleError p"
    by (rule run_results) (simp add: constructor_def setAuthHeader_def Let_def split: option.splits)
  then have 7: "\<exists>error. f = Api (handleError error)"
    if "(i, b, Threw f) \<in> set (results (run evs' (constructor storage')))" "b = Crud \<or> b = Delete"
    for i b f
    using that by fastforce
  have 8: "message (handleError e) = err_message e \<and>
         details (handleError e) = map_option resp_data (response e) \<and>
         (response e = None \<longrightarrow> status (handleError e) = 500) \<and>
         (\<forall>x. response e = Some x \<and> resp_status x \<noteq> 0 \<longrightarrow> status (handleError e) = resp_status x)"
    by (simp add: handleError_def)
  from 1 2 3 4 5 6 7 8 show ?thesis
    by (simp only: step.simps) blast
qed

theorem crud_failure_is_api_error_witness:
  "results (run [Call (getNode ''999''), Answer 0 (Inl (rejection 404))] (constructor Map.empty)) =
     [(0, Crud, Threw (Api \<lparr>message = ''Request failed'', status = 404,
        details = Some \<lparr>access = None, refresh = None, content = ''detail''\<rparr>\<rparr>))] \<and>
   map (\<lambda>p. (fst p, snd (snd p))) (results (step (Answer 3 (Inl network_error)) expired_session)) =
     [(0, Threw (Api \<lparr>message = ''Network Error'', status = 500, details = None\<rparr>)),
      (1, Threw (Api \<lparr>message = ''Network Error'', status = 500, details = None\<rparr>)),
      (2, Threw (Api \<lparr>message = ''Network Error'', status = 500, details = None\<rparr>))]"
proof -
  let ?w = "run [Call (getNode ''999'')] (constructor Map.empty)"
  let ?cfg = "\<lparr>verb = GET, url = ''nodes/999/'', body = NoBody, Authorization = None, retry = False\<rparr>"
  have l: "lookup 0 (inflight ?w) = Some (Crud, ?cfg)" "results ?w = []"
    by (simp_all add: eval_defs)
  have v: "expired_session = run ([Call getNodes, Call getEdges, Call getTransactions] @
      answers [0, 1, 2] (\<lambda>i. rejection 401)) (constructor (stored_pair ''T1'' ''R1''))"
    by (simp add: expired_session_def three_requests_def run_def)
  have u: "\<not> unauthorized (rejection 404)" "\<not> unauthorized network_error"
    by (simp_all add: unauthorized_def rejection_def network_error_def)
  have e: "results expired_session = []"
    "map (\<lambda>p. (fst p, fst (snd p))) (waiting expired_session) = [(0, Crud), (1, Crud), (2, Crud)]"
    by (simp_all add: eval_defs)
  from crud_failure_is_api_error [OF l(1) _ v expired_session_refresh, of "rejection 404" network_error]
    l(2) u
  have "results (step (Answer 0 (Inl (rejection 404))) ?w) =
      [(0, Crud, Threw (Api (handleError (rejection 404))))]"
    and "results (step (Answer 3 (Inl network_error)) expired_session) =
      map (\<lambda>p. (fst p, fst (snd p), Threw (Api (handleError network_error)))) (waiting expired_session)"
    by (simp_all add: e)
  then show ?thesis
    using e(2) by (simp add: run_def handleError_def rejection_def network_error_def comp_def)
      (simp add: eval_defs)
qed

text \<open>
  The claim as the specification states it fails: on a page with empty storage the request
  of \<^verbatim>\<open>getNodes\<close> is answered with a response of status 401, and the \<^verbatim>\<open>APIError\<close>
  that the call throws has status 500, the message of the error that \<^verbatim>\<open>doRefreshToken\<close>
  threw, and no details.
\<close>

theorem first_401_surfaces_refresh_error:
  "response (rejection 401) =
     Some \<lparr>resp_status = 401, resp_data = \<lparr>access = None, refresh = None, content = ''detail''\<rparr>\<rparr> \<and>
   results (run [Call getNodes, Answer 0 (Inl (rejection 401))] (constructor Map.empty)) =
     [(0, Crud, Threw (Api \<lparr>message = ''No refresh token available'', status = 500, details = None\<rparr>))]"
  by (simp add: eval_defs)

text \<open>
  Claim C10 (a failed login changes nothing) fails on the code when the server rejects the
  credentials with status 401 while a session is stored. The interceptor takes the 401 of
  the call to \<^verbatim>\<open>token/\<close> as an expired access token and starts a refresh; here the refresh
  call fails on the network, \<^verbatim>\<open>logout\<close> runs, and \<^verbatim>\<open>login\<close> throws. The tokens that
  were in memory and in storage before the call, and the header, are gone.
\<close>

theorem login_rejected_401_clears_session:
  "accessToken (constructor (stored_pair ''T1'' ''R1'')) = Some ''T1'' \<and>
   refreshToken (constructor (stored_pair ''T1'' ''R1'')) = Some ''R1'' \<and>
   results rejected_login = [(0, Login, Threw (Api (handleError network_error)))] \<and>
   accessToken rejected_login = None \<and> refreshToken rejected_login = None \<and>
   localStorage rejected_login ''accessToken'' = None \<and>
   localStorage rejected_login ''refreshToken'' = None \<and>
   defaultAuthorization rejected_login = None"
  by (simp add: rejected_login_def eval_defs)

end
